theory Spec2Isabelle
  imports Complex_Main "HOL-Library.Word"
begin

unbundle bit_operations_syntax

section \<open>Data model of TextLineBuffer.cc\<close>

text \<open>
  The embedding follows \<^verbatim>\<open>src/HTMLRenderer/TextLineBuffer.cc\<close>.
  A C++ \<^verbatim>\<open>double\<close> is idealised as a \<^typ>\<open>real\<close> (no rounding, no NaN),
  a \<^verbatim>\<open>long long\<close> is a 64-bit word, a \<^verbatim>\<open>size_t\<close> index is a \<^typ>\<open>nat\<close>,
  a \<^verbatim>\<open>std::vector\<close> is a list whose \<^verbatim>\<open>back()\<close> is the last element,
  and a poppler \<^verbatim>\<open>Unicode\<close> code point is a \<^typ>\<open>nat\<close>.
\<close>

type_synonym llong = "64 word"
type_synonym Unicode = nat

text \<open>
  The header \<^verbatim>\<open>TextLineBuffer.h\<close> is not among the sources. The enum of channel
  indices is read off the table \<^verbatim>\<open>css_class_names\<close> at the end of the file, whose
  comment says that it follows the order of the enum.
\<close>

definition FONT_ID :: nat where "FONT_ID = 0"
definition FONT_SIZE_ID :: nat where "FONT_SIZE_ID = 1"
definition FILL_COLOR_ID :: nat where "FILL_COLOR_ID = 2"
definition STROKE_COLOR_ID :: nat where "STROKE_COLOR_ID = 3"
definition LETTER_SPACE_ID :: nat where "LETTER_SPACE_ID = 4"
definition WORD_SPACE_ID :: nat where "WORD_SPACE_ID = 5"
definition RISE_ID :: nat where "RISE_ID = 6"
definition ID_COUNT :: nat where "ID_COUNT = 7"

lemmas ID_defs = FONT_ID_def FONT_SIZE_ID_def FILL_COLOR_ID_def STROKE_COLOR_ID_def
  LETTER_SPACE_ID_def WORD_SPACE_ID_def RISE_ID_def ID_COUNT_def

text \<open>The fields of \<^verbatim>\<open>FontInfo\<close> that this file reads.\<close>

record FontInfo =
  font_id :: llong
  ascent :: real
  descent :: real
  space_width :: real

record Offset =
  start_idx :: nat
  width :: real

record State =
  ids :: "llong list"
  font_info :: FontInfo
  draw_font_size :: real
  letter_space :: real
  word_space :: real
  start_idx :: nat
  hash_value :: llong
  hash_umask :: llong
  need_close :: bool

text \<open>
  What \<^verbatim>\<open>states.resize(states.size() + 1)\<close> appends: a value-initialised
  \<^verbatim>\<open>State\<close>, every field zero. Its \<^verbatim>\<open>font_info\<close> is a null pointer in the
  source; no path of the file dereferences it before \<^verbatim>\<open>set_state\<close> has
  overwritten it, so a record of zeros stands for it here.
\<close>

definition zero_State :: State where
  "zero_State = \<lparr> ids = replicate ID_COUNT 0,
      font_info = \<lparr> font_id = 0, ascent = 0, descent = 0, space_width = 0 \<rparr>,
      draw_font_size = 0, letter_space = 0, word_space = 0, start_idx = 0,
      hash_value = 0, hash_umask = 0, need_close = False \<rparr>"

text \<open>
  The part of \<^verbatim>\<open>HTMLRenderer\<close> that the buffer reads. The managers of
  \<^verbatim>\<open>StateManager.h\<close> and \<^verbatim>\<open>Param.h\<close> are not among the sources: each
  manager's current id and actual value, each \<^verbatim>\<open>install\<close> (the id it returns,
  paired with the value it stores through its pointer argument where the call passes
  one), the parameters and the constant \<^verbatim>\<open>EPS\<close> of \<^verbatim>\<open>util\<close> are fields of
  this record.
\<close>

record Renderer =
  cur_font_info :: FontInfo
  font_size_manager_id :: llong
  font_size_manager_actual_value :: real
  fill_color_manager_id :: llong
  stroke_color_manager_id :: llong
  letter_space_manager_id :: llong
  letter_space_manager_actual_value :: real
  word_space_manager_id :: llong
  word_space_manager_actual_value :: real
  rise_manager_id :: llong
  transform_matrix_manager_id :: llong
  word_space_manager_install :: "real \<Rightarrow> llong \<times> real"
  whitespace_manager_install :: "real \<Rightarrow> llong \<times> real"
  height_manager_install :: "real \<Rightarrow> llong"
  left_manager_install :: "real \<Rightarrow> llong"
  bottom_manager_install :: "real \<Rightarrow> llong"
  h_eps :: real
  space_threshold :: real
  EPS :: real

record TextLineBuffer =
  x :: real
  y :: real
  tm_id :: llong
  text' :: "Unicode list"
  offsets :: "Offset list"
  states :: "State list"

definition empty_buffer :: TextLineBuffer where
  "empty_buffer = \<lparr> x = 0, y = 0, tm_id = 0, text' = [], offsets = [], states = [] \<rparr>"

section \<open>The accumulator\<close>

definition append_unicodes :: "Unicode list \<Rightarrow> TextLineBuffer \<Rightarrow> TextLineBuffer" where
  "append_unicodes u b = b\<lparr> text' := text' b @ u \<rparr>"

definition append_offset :: "real \<Rightarrow> TextLineBuffer \<Rightarrow> TextLineBuffer" where
  "append_offset w b =
    (if offsets b \<noteq> [] \<and> Offset.start_idx (last (offsets b)) = length (text' b)
     then b\<lparr> offsets := butlast (offsets b) @
            [(last (offsets b))\<lparr> width := width (last (offsets b)) + w \<rparr>] \<rparr>
     else b\<lparr> offsets := offsets b @
            [\<lparr> Offset.start_idx = length (text' b), width = w \<rparr>] \<rparr>)"

definition set_state :: "Renderer \<Rightarrow> State \<Rightarrow> State" where
  "set_state r s =
     s\<lparr> ids := (ids s)
            [FONT_ID := font_id (cur_font_info r),
             FONT_SIZE_ID := font_size_manager_id r,
             FILL_COLOR_ID := fill_color_manager_id r,
             STROKE_COLOR_ID := stroke_color_manager_id r,
             LETTER_SPACE_ID := letter_space_manager_id r,
             WORD_SPACE_ID := word_space_manager_id r,
             RISE_ID := rise_manager_id r],
        font_info := cur_font_info r,
        draw_font_size := font_size_manager_actual_value r,
        letter_space := letter_space_manager_actual_value r,
        word_space := word_space_manager_actual_value r \<rparr>"

definition append_state :: "Renderer \<Rightarrow> TextLineBuffer \<Rightarrow> TextLineBuffer" where
  "append_state r b =
    (let sts = (if states b = [] \<or> State.start_idx (last (states b)) \<noteq> length (text' b)
                then states b @ [zero_State\<lparr> State.start_idx := length (text' b),
                                             hash_umask := 0 \<rparr>]
                else states b)
     in b\<lparr> states := butlast sts @ [set_state r (last sts)] \<rparr>)"

text \<open>The calls a caller makes on one buffer before it flushes it.\<close>

datatype append_call =
    Append_unicodes "Unicode list"
  | Append_offset real
  | Append_state Renderer

fun do_append :: "TextLineBuffer \<Rightarrow> append_call \<Rightarrow> TextLineBuffer" where
  "do_append b (Append_unicodes u) = append_unicodes u b"
| "do_append b (Append_offset w) = append_offset w b"
| "do_append b (Append_state r) = append_state r b"

definition appends :: "append_call list \<Rightarrow> TextLineBuffer \<Rightarrow> TextLineBuffer" where
  "appends cs b = foldl do_append b cs"

text \<open>The offset positions: strictly increasing and inside the text.\<close>

definition offsets_ok :: "TextLineBuffer \<Rightarrow> bool" where
  "offsets_ok b \<longleftrightarrow>
     sorted_wrt (<) (map Offset.start_idx (offsets b)) \<and>
     list_all (\<lambda>p. p \<le> length (text' b)) (map Offset.start_idx (offsets b))"

definition states_ok :: "TextLineBuffer \<Rightarrow> bool" where
  "states_ok b \<longleftrightarrow>
     sorted_wrt (<) (map State.start_idx (states b)) \<and>
     list_all (\<lambda>p. p \<le> length (text' b)) (map State.start_idx (states b))"

section \<open>The state model\<close>

definition umask_by_id :: "nat \<Rightarrow> llong" where
  "umask_by_id i = push_bit (8 * i) 0xff"

definition single_space_offset :: "State \<Rightarrow> real" where
  "single_space_offset s =
     word_space s + letter_space s + space_width (font_info s) * draw_font_size s"

definition em_size :: "State \<Rightarrow> real" where
  "em_size s = draw_font_size s * (ascent (font_info s) - descent (font_info s))"

definition hash :: "State \<Rightarrow> State" where
  "hash s = s\<lparr> hash_value :=
      fold (\<lambda>i h. push_bit 8 h OR (ids s ! i AND 0xff)) [0..<ID_COUNT] 0 \<rparr>"

definition diff :: "State \<Rightarrow> State \<Rightarrow> nat" where
  "diff a s =
    (let common_mask = NOT (hash_umask a OR hash_umask s) in
     if hash_value a AND common_mask = hash_value s AND common_mask then 0
     else fst (fold (\<lambda>i (d, cur_mask).
                 (if common_mask AND cur_mask \<noteq> 0 \<and> ids a ! i \<noteq> ids s ! i then d + 1 else d,
                  push_bit 8 cur_mask))
               [0..<ID_COUNT] (0, 0xff)))"

text \<open>
  The output stream as the list of the pieces written to it, in order. One constructor
  stands for one output statement of the source (the class names of
  \<^verbatim>\<open>util/css_const.h\<close> are not among the sources):
  \<^item> \<open>Line_open tm lid hid bid\<close>: the \<^verbatim>\<open><div class="..."> \<close> of a line;
  \<^item> \<open>Span_open\<close>: \<^verbatim>\<open><span class="\<close>; \<open>Blank\<close>: the separator between two class names;
  \<^item> \<open>Class_id i v\<close>: \<^verbatim>\<open>css_class_names[i]\<close> followed by the id \<open>v\<close>;
    \<open>Class_invalid i\<close>: the same name followed by \<^verbatim>\<open>CSS::INVALID_ID\<close>;
  \<^item> \<open>Tag_end\<close>: the \<^verbatim>\<open>">\<close> that ends the opening tag; \<open>Span_close\<close>: \<^verbatim>\<open></span>\<close>;
  \<^item> \<open>Whitespace_span wid sp\<close>: the whole element
    \<^verbatim>\<open><span class="_ _wid">\<close>, a space when \<open>sp\<close>, \<^verbatim>\<open></span>\<close>;
  \<^item> \<open>Unicodes us\<close>: one call of \<^verbatim>\<open>outputUnicodes\<close>; \<open>Line_close\<close>: \<^verbatim>\<open></div>\<close>.
\<close>

datatype token =
    Line_open llong llong llong llong
  | Span_open
  | Blank
  | Class_id nat llong
  | Class_invalid nat
  | Tag_end
  | Span_close
  | Whitespace_span llong bool
  | Unicodes "Unicode list"
  | Line_close

text \<open>The \<^verbatim>\<open>switch\<close> of \<^verbatim>\<open>State::begin\<close> that copies the value of an inherited id.\<close>

definition copy_value :: "nat \<Rightarrow> State \<Rightarrow> State \<Rightarrow> State" where
  "copy_value i prev_state s =
    (if i = FONT_SIZE_ID then s\<lparr> draw_font_size := draw_font_size prev_state \<rparr>
     else if i = LETTER_SPACE_ID then s\<lparr> letter_space := letter_space prev_state \<rparr>
     else if i = WORD_SPACE_ID then s\<lparr> word_space := word_space prev_state \<rparr>
     else s)"

text \<open>
  One round of the loop of \<^verbatim>\<open>State::begin\<close> on the state, the output, the flag
  \<^verbatim>\<open>first\<close> and \<^verbatim>\<open>cur_mask\<close>; \<open>None\<close> is the null \<^verbatim>\<open>prev_state\<close>.
\<close>

definition begin_round ::
  "State option \<Rightarrow> nat \<Rightarrow> State \<times> token list \<times> bool \<times> llong
     \<Rightarrow> State \<times> token list \<times> bool \<times> llong" where
  "begin_round prev_state i = (\<lambda>(s, out, first, cur_mask).
     if hash_umask s AND cur_mask \<noteq> 0 then
       (case prev_state of
          None \<Rightarrow> (s, out, first, push_bit 8 cur_mask)
        | Some p \<Rightarrow>
            if hash_umask p AND cur_mask = 0
            then (copy_value i p
                    (s\<lparr> ids := (ids s)[i := ids p ! i],
                        hash_umask := hash_umask s AND NOT cur_mask \<rparr>),
                  out, first, push_bit 8 cur_mask)
            else (s, out, first, push_bit 8 cur_mask))
     else if (case prev_state of
                None \<Rightarrow> False
              | Some p \<Rightarrow> hash_umask p AND cur_mask = 0 \<and> ids p ! i = ids s ! i)
     then (s, out, first, push_bit 8 cur_mask)
     else (s,
           out @ [if first then Span_open else Blank,
                  if ids s ! i = - 1 then Class_invalid i else Class_id i (ids s ! i)],
           False, push_bit 8 cur_mask))"

definition State_begin :: "State \<Rightarrow> State option \<Rightarrow> State \<times> token list" where
  "State_begin s prev_state =
    (case fold (begin_round prev_state) [0..<ID_COUNT] (s, [], True, 0xff) of
       (s', out, first, cur_mask) \<Rightarrow>
         if first then (s'\<lparr> need_close := False \<rparr>, out)
         else (s'\<lparr> need_close := True \<rparr>, out @ [Tag_end]))"

definition State_end :: "State \<Rightarrow> token list" where
  "State_end s = (if need_close s then [Span_close] else [])"

section \<open>Word-space inference\<close>

text \<open>
  Modelled from the spec: \<^verbatim>\<open>util/math.h\<close> is not among the sources; its
  \<^verbatim>\<open>equal\<close> and \<^verbatim>\<open>is_positive\<close> are the comparisons up to the fixed epsilon
  that the spec's section on error handling describes.
\<close>

definition equal_eps :: "Renderer \<Rightarrow> real \<Rightarrow> real \<Rightarrow> bool" where
  "equal_eps r a b \<longleftrightarrow> \<bar>a - b\<bar> \<le> EPS r"

definition is_positive :: "Renderer \<Rightarrow> real \<Rightarrow> bool" where
  "is_positive r a \<longleftrightarrow> a > EPS r"

text \<open>
  The \<^verbatim>\<open>std::map<double, int> width_map\<close> is the list of its entries in
  increasing order of the key. \<open>lower_bound\<close> gives the entries from the iterator on,
  \<open>map_insert\<close> is \<^verbatim>\<open>insert\<close> of a key with count 1 (nothing changes when the key
  is present), \<open>map_increment\<close> is \<^verbatim>\<open>++ iter->second\<close> at the entry of a key.
\<close>

type_synonym width_map = "(real \<times> nat) list"

definition lower_bound :: "width_map \<Rightarrow> real \<Rightarrow> width_map" where
  "lower_bound m v = dropWhile (\<lambda>(k, c). k < v) m"

fun map_insert :: "width_map \<Rightarrow> real \<Rightarrow> width_map" where
  "map_insert [] v = [(v, 1)]"
| "map_insert ((k, c) # m) v =
     (if v < k then (v, 1) # (k, c) # m
      else if v = k then (k, c) # m
      else (k, c) # map_insert m v)"

fun map_increment :: "width_map \<Rightarrow> real \<Rightarrow> width_map" where
  "map_increment [] v = []"
| "map_increment ((k, c) # m) v =
     (if k = v then (k, c + 1) # m else (k, c) # map_increment m v)"

definition collect_width :: "Renderer \<Rightarrow> real \<Rightarrow> Offset \<Rightarrow> width_map \<Rightarrow> width_map" where
  "collect_width r threshold off m =
    (let target = width off in
     if target < threshold - EPS r then m
     else (case lower_bound m (target - EPS r) of
             [] \<Rightarrow> map_insert m target
           | (k, c) # rest \<Rightarrow>
               if \<bar>k - target\<bar> \<le> EPS r then map_increment m k else map_insert m target))"

definition most_used :: "width_map \<Rightarrow> real \<times> nat" where
  "most_used m =
     fold (\<lambda>(k, c) (most_used_width, max_count).
             if c > max_count then (k, c) else (most_used_width, max_count)) m (0, 0)"

text \<open>
  The loop of \<^verbatim>\<open>optimize\<close> over the states, with \<^verbatim>\<open>offset_iter\<close> as the
  offsets from the iterator on. The source forms \<^verbatim>\<open>text.begin() + text_idx\<close>
  unchecked; a segment that ends before it starts or beyond the text is undefined
  behaviour there and \<open>None\<close> here.
\<close>

fun optimize_loop ::
  "Renderer \<Rightarrow> Unicode list \<Rightarrow> Offset list \<Rightarrow> State list \<Rightarrow> State list option" where
  "optimize_loop r txt offset_iter [] = Some []"
| "optimize_loop r txt offset_iter (s1 # rest) =
    (let text_idx1 = State.start_idx s1;
         text_idx2 = (case rest of [] \<Rightarrow> length txt | s2 # _ \<Rightarrow> State.start_idx s2)
     in if text_idx2 < text_idx1 \<or> length txt < text_idx2 then None
        else if 32 \<in> set (take (text_idx2 - text_idx1) (drop text_idx1 txt))
        then map_option ((#) s1) (optimize_loop r txt offset_iter rest)
        else
          (let offset_iter1 = dropWhile (\<lambda>off. Offset.start_idx off < text_idx1) offset_iter;
               threshold = em_size s1 * space_threshold r;
               width_map = fold (collect_width r threshold)
                  (takeWhile (\<lambda>off. Offset.start_idx off < text_idx2) offset_iter1) [];
               offset_iter2 = dropWhile (\<lambda>off. Offset.start_idx off < text_idx2) offset_iter1;
               s1' =
                 (if width_map = []
                  then s1\<lparr> hash_umask := hash_umask s1 OR umask_by_id WORD_SPACE_ID \<rparr>
                  else
                    (let most_used_width = fst (most_used width_map);
                         new_word_space =
                           most_used_width - single_space_offset (s1\<lparr> word_space := 0 \<rparr>);
                         (wid, actual) = word_space_manager_install r new_word_space
                     in s1\<lparr> word_space := actual,
                            ids := (ids s1)[WORD_SPACE_ID := wid],
                            hash_umask := hash_umask s1 AND NOT (umask_by_id WORD_SPACE_ID) \<rparr>))
           in map_option ((#) s1') (optimize_loop r txt offset_iter2 rest)))"

text \<open>\<open>None\<close> also where the \<^verbatim>\<open>assert\<close> of \<^verbatim>\<open>optimize\<close> fails.\<close>

definition optimize :: "Renderer \<Rightarrow> TextLineBuffer \<Rightarrow> TextLineBuffer option" where
  "optimize r b =
    (if states b = [] then None
     else map_option (\<lambda>sts. b\<lparr> states := sts \<rparr>)
            (optimize_loop r (text' b) (offsets b) (states b)))"

section \<open>The render pass\<close>

text \<open>
  The stack of open elements is a list with \<^verbatim>\<open>stack.back()\<close> at its head; the
  null pointer at the bottom of the source's stack is the end of the list. The stack
  holds the states as \<^verbatim>\<open>begin\<close> left them: the source pushes the address of an
  element of \<^verbatim>\<open>states\<close> that nothing modifies afterwards.

  \<open>greedy_scan cur last upper deeper best_cost\<close> is the loop that looks for the parent
  of \<open>cur\<close>: \<open>deeper\<close> are the elements from the iterator on, \<open>upper\<close> those above it
  that are still on the stack. It returns the stack and what the \<^verbatim>\<open>end\<close> calls wrote.
\<close>

fun greedy_scan ::
  "State \<Rightarrow> nat \<Rightarrow> State list \<Rightarrow> State list \<Rightarrow> nat \<Rightarrow> State list \<times> token list" where
  "greedy_scan cur last_neg upper [] best_cost = (upper, [])"
| "greedy_scan cur last_neg upper (e # deeper) best_cost =
    (let cost = diff cur e in
     if cost < best_cost then
       (if cost = 0 \<or> State.start_idx e \<le> last_neg
        then (e # deeper, concat (map State_end upper))
        else (case greedy_scan cur last_neg [e] deeper cost of
                (stk, out) \<Rightarrow> (stk, concat (map State_end upper) @ out)))
     else if State.start_idx e \<le> last_neg then (upper @ e # deeper, [])
     else greedy_scan cur last_neg (upper @ [e]) deeper best_cost)"

text \<open>
  The resolution of one offset (the body of the second \<^verbatim>\<open>if\<close> of the loop of
  \<^verbatim>\<open>flush\<close>): what is written, \<^verbatim>\<open>actual_offset\<close>, and the new
  \<^verbatim>\<open>last_text_pos_with_negative_offset\<close>.
\<close>

definition resolve_offset ::
  "Renderer \<Rightarrow> State \<Rightarrow> real \<Rightarrow> nat \<Rightarrow> nat \<Rightarrow> token list \<times> real \<times> nat" where
  "resolve_offset r cur_state target cur_text_idx last_neg =
    (if \<bar>target\<bar> \<le> h_eps r then ([], 0, last_neg)
     else if hash_umask cur_state AND umask_by_id WORD_SPACE_ID = 0
             \<and> \<bar>target - single_space_offset cur_state\<bar> \<le> h_eps r
     then ([Unicodes [32]], single_space_offset cur_state, last_neg)
     else (case whitespace_manager_install r target of
             (wid, actual_offset) \<Rightarrow>
               if \<not> equal_eps r actual_offset 0
               then ([Whitespace_span wid
                        (target > em_size cur_state * space_threshold r - EPS r)],
                     actual_offset,
                     if is_positive r (- actual_offset) then cur_text_idx else last_neg)
               else ([], actual_offset, last_neg)))"

record Walk =
  cur_text_idx :: nat
  cur_state_iter :: "State list"
  cur_offset_iter :: "Offset list"
  dx :: real
  stack :: "State list"
  last_text_pos_with_negative_offset :: nat
  out :: "token list"

text \<open>
  The three parts of one round of the loop of \<^verbatim>\<open>flush\<close>. The two iterators are
  the elements from the iterator on. \<open>None\<close> is undefined behaviour of the source:
  an iterator dereferenced at the end of its vector, \<^verbatim>\<open>stack.back()\<close> dereferenced
  when it is the null pointer, or a text run that ends before it starts or beyond the
  text.
\<close>

definition state_boundary :: "Walk \<Rightarrow> Walk option" where
  "state_boundary w =
    (case cur_state_iter w of
       [] \<Rightarrow> None
     | s # rest \<Rightarrow>
         if cur_text_idx w \<ge> State.start_idx s then
           (case greedy_scan s (last_text_pos_with_negative_offset w) [] (stack w) ID_COUNT of
              (stk, ended) \<Rightarrow>
                (case State_begin s (case stk of [] \<Rightarrow> None | p # _ \<Rightarrow> Some p) of
                   (s', begun) \<Rightarrow>
                     Some (w\<lparr> cur_state_iter := rest, stack := s' # stk,
                              out := out w @ ended @ begun \<rparr>)))
         else Some w)"

definition offset_boundary :: "Renderer \<Rightarrow> Walk \<Rightarrow> Walk option" where
  "offset_boundary r w =
    (case cur_offset_iter w of
       [] \<Rightarrow> None
     | off # rest \<Rightarrow>
         if cur_text_idx w \<ge> Offset.start_idx off then
           (case stack w of
              [] \<Rightarrow> None
            | cur_state # _ \<Rightarrow>
                (let target = width off + dx w in
                 case resolve_offset r cur_state target (cur_text_idx w)
                        (last_text_pos_with_negative_offset w) of
                   (written, actual_offset, last_neg) \<Rightarrow>
                     Some (w\<lparr> cur_offset_iter := rest, dx := target - actual_offset,
                              last_text_pos_with_negative_offset := last_neg,
                              out := out w @ written \<rparr>)))
         else Some w)"

definition text_run :: "Unicode list \<Rightarrow> Walk \<Rightarrow> Walk option" where
  "text_run txt w =
    (case (cur_state_iter w, cur_offset_iter w) of
       (s # _, off # _) \<Rightarrow>
         (let next_text_idx = min (State.start_idx s) (Offset.start_idx off) in
          if next_text_idx < cur_text_idx w \<or> length txt < next_text_idx then None
          else Some (w\<lparr> cur_text_idx := next_text_idx,
                        out := out w @ [Unicodes (take (next_text_idx - cur_text_idx w)
                                                    (drop (cur_text_idx w) txt))] \<rparr>))
     | _ \<Rightarrow> None)"

definition walk_round :: "Renderer \<Rightarrow> Unicode list \<Rightarrow> Walk \<Rightarrow> Walk option" where
  "walk_round r txt w =
    (case state_boundary w of
       None \<Rightarrow> None
     | Some w1 \<Rightarrow>
         (case offset_boundary r w1 of
            None \<Rightarrow> None
          | Some w2 \<Rightarrow> text_run txt w2))"

definition walk_measure :: "Unicode list \<Rightarrow> Walk \<Rightarrow> nat" where
  "walk_measure txt w =
     length (cur_state_iter w) + length (cur_offset_iter w) + (length txt - cur_text_idx w)"

text \<open>Every round of the loop that does not fail brings the loop nearer to its end.\<close>

lemma state_boundary_measure:
  assumes "state_boundary w = Some w1"
  shows "cur_text_idx w1 = cur_text_idx w" and "cur_offset_iter w1 = cur_offset_iter w"
    and "cur_state_iter w \<noteq> []"
    and "(cur_state_iter w1 = cur_state_iter w \<and> cur_text_idx w < State.start_idx (hd (cur_state_iter w)))
          \<or> (cur_state_iter w1 = tl (cur_state_iter w) \<and> State.start_idx (hd (cur_state_iter w)) \<le> cur_text_idx w)"
proof -
  obtain s rest where sr: "cur_state_iter w = s # rest"
    using assms by (cases "cur_state_iter w") (simp_all add: state_boundary_def)
  show "cur_state_iter w \<noteq> []" by (simp add: sr)
  show "cur_text_idx w1 = cur_text_idx w"
    using assms sr by (cases "State.start_idx s \<le> cur_text_idx w")
      (auto simp: state_boundary_def split: prod.splits)
  show "cur_offset_iter w1 = cur_offset_iter w"
    using assms sr by (cases "State.start_idx s \<le> cur_text_idx w")
      (auto simp: state_boundary_def split: prod.splits)
  show "(cur_state_iter w1 = cur_state_iter w \<and> cur_text_idx w < State.start_idx (hd (cur_state_iter w)))
          \<or> (cur_state_iter w1 = tl (cur_state_iter w) \<and> State.start_idx (hd (cur_state_iter w)) \<le> cur_text_idx w)"
    using assms sr by (cases "State.start_idx s \<le> cur_text_idx w")
      (auto simp: state_boundary_def split: prod.splits)
qed


lemma offset_boundary_measure:
  assumes "offset_boundary r w = Some w1"
  shows "cur_text_idx w1 = cur_text_idx w" and "cur_state_iter w1 = cur_state_iter w"
    and "cur_offset_iter w \<noteq> []"
    and "(cur_offset_iter w1 = cur_offset_iter w \<and> cur_text_idx w < Offset.start_idx (hd (cur_offset_iter w)))
          \<or> (cur_offset_iter w1 = tl (cur_offset_iter w) \<and> Offset.start_idx (hd (cur_offset_iter w)) \<le> cur_text_idx w)"
proof -
  obtain off rest where sr: "cur_offset_iter w = off # rest"
    using assms by (cases "cur_offset_iter w") (simp_all add: offset_boundary_def)
  show "cur_offset_iter w \<noteq> []" by (simp add: sr)
  show "cur_text_idx w1 = cur_text_idx w"
    using assms sr by (cases "Offset.start_idx off \<le> cur_text_idx w")
      (auto simp: offset_boundary_def Let_def split: prod.splits list.splits)
  show "cur_state_iter w1 = cur_state_iter w"
    using assms sr by (cases "Offset.start_idx off \<le> cur_text_idx w")
      (auto simp: offset_boundary_def Let_def split: prod.splits list.splits)
  show "(cur_offset_iter w1 = cur_offset_iter w \<and> cur_text_idx w < Offset.start_idx (hd (cur_offset_iter w)))
          \<or> (cur_offset_iter w1 = tl (cur_offset_iter w) \<and> Offset.start_idx (hd (cur_offset_iter w)) \<le> cur_text_idx w)"
    using assms sr by (cases "Offset.start_idx off \<le> cur_text_idx w")
      (auto simp: offset_boundary_def Let_def split: prod.splits list.splits)
qed

lemma text_run_measure:
  assumes "text_run txt w = Some w1"
  shows "cur_state_iter w1 = cur_state_iter w" and "cur_offset_iter w1 = cur_offset_iter w"
    and "cur_text_idx w1 =
           min (State.start_idx (hd (cur_state_iter w))) (Offset.start_idx (hd (cur_offset_iter w)))"
    and "cur_text_idx w \<le> cur_text_idx w1" and "cur_text_idx w1 \<le> length txt"
proof -
  obtain s srest off orest where sr: "cur_state_iter w = s # srest" "cur_offset_iter w = off # orest"
    using assms by (cases "cur_state_iter w"; cases "cur_offset_iter w") (simp_all add: text_run_def)
  have ok: "\<not> (min (State.start_idx s) (Offset.start_idx off) < cur_text_idx w
              \<or> length txt < min (State.start_idx s) (Offset.start_idx off))"
    using assms sr by (auto simp: text_run_def Let_def split: if_splits)
  have eq: "w1 = w\<lparr> cur_text_idx := min (State.start_idx s) (Offset.start_idx off),
                    out := out w @ [Unicodes (take (min (State.start_idx s) (Offset.start_idx off) - cur_text_idx w)
                                                    (drop (cur_text_idx w) txt))] \<rparr>"
    using assms sr ok by (auto simp: text_run_def Let_def split: if_splits)
  show "cur_state_iter w1 = cur_state_iter w" by (simp add: eq)
  show "cur_offset_iter w1 = cur_offset_iter w" by (simp add: eq)
  show "cur_text_idx w1 =
           min (State.start_idx (hd (cur_state_iter w))) (Offset.start_idx (hd (cur_offset_iter w)))"
    by (simp add: eq sr)
  show "cur_text_idx w \<le> cur_text_idx w1" using ok by (auto simp: eq)
  show "cur_text_idx w1 \<le> length txt" using ok by (auto simp: eq)
qed

lemma walk_round_measure:
  assumes lt: "cur_text_idx w < length txt" and step: "walk_round r txt w = Some w'"
  shows "walk_measure txt w' < walk_measure txt w"
proof -
  from step obtain w1 w2 where
    1: "state_boundary w = Some w1" and 2: "offset_boundary r w1 = Some w2"
    and 3: "text_run txt w2 = Some w'"
    by (auto simp: walk_round_def split: option.splits)
  note a = state_boundary_measure [OF 1]
  note b = offset_boundary_measure [OF 2]
  note c = text_run_measure [OF 3]
  have ne: "cur_state_iter w \<noteq> []" "cur_offset_iter w \<noteq> []"
    using a b by simp_all
  have len: "length (tl (cur_state_iter w)) < length (cur_state_iter w)"
      "length (tl (cur_offset_iter w)) < length (cur_offset_iter w)"
    using ne by simp_all
  have idx: "cur_text_idx w \<le> cur_text_idx w'" using a(1) b(1) c(4) by simp
  from a(4) show ?thesis
  proof
    assume s: "cur_state_iter w1 = tl (cur_state_iter w) \<and> State.start_idx (hd (cur_state_iter w)) \<le> cur_text_idx w"
    from b(4) have "length (cur_offset_iter w2) \<le> length (cur_offset_iter w)"
      using a(2) len by auto
    then show ?thesis
      using s len idx c(1,2) b(2) unfolding walk_measure_def by simp
  next
    assume s: "cur_state_iter w1 = cur_state_iter w \<and> cur_text_idx w < State.start_idx (hd (cur_state_iter w))"
    from b(4) show ?thesis
    proof
      assume o: "cur_offset_iter w2 = tl (cur_offset_iter w1) \<and> Offset.start_idx (hd (cur_offset_iter w1)) \<le> cur_text_idx w1"
      then show ?thesis
        using s len idx c(1,2) b(2) a(2) unfolding walk_measure_def by simp
    next
      assume o: "cur_offset_iter w2 = cur_offset_iter w1 \<and> cur_text_idx w1 < Offset.start_idx (hd (cur_offset_iter w1))"
      have "cur_text_idx w < cur_text_idx w'"
        using s o a(1,2) b(1,2) c(3) by simp
      then show ?thesis
        using lt s o c(1,2,5) b(2) a(2) unfolding walk_measure_def by simp
    qed
  qed
qed

function walk :: "Renderer \<Rightarrow> Unicode list \<Rightarrow> Walk \<Rightarrow> Walk option" where
  "walk r txt w =
    (if cur_text_idx w < length txt then
       (case walk_round r txt w of None \<Rightarrow> None | Some w' \<Rightarrow> walk r txt w')
     else Some w)"
  by pat_completeness auto
termination
  by (relation "measure (\<lambda>(r, txt, w). walk_measure txt w)")
     (simp_all add: walk_round_measure)

text \<open>
  What \<^verbatim>\<open>flush\<close> leaves: what it wrote to the page, what it wrote to
  \<^verbatim>\<open>cerr\<close>, and the buffer.
\<close>

record Flushed =
  page :: "token list"
  cerr :: "string list"
  buffer :: TextLineBuffer

text \<open>
  The loop variables of \<^verbatim>\<open>flush\<close> when the loop starts, after the sentinel state
  and offset have been appended, the keys computed and the opening tag of the line
  written.
\<close>

definition first_walk :: "Renderer \<Rightarrow> TextLineBuffer \<Rightarrow> Walk" where
  "first_walk r b1 =
    (let max_ascent =
           fold (\<lambda>s m. max m (ascent (font_info s) * draw_font_size s)) (states b1) 0;
         sts = map hash
           (states b1 @ [zero_State\<lparr> State.start_idx := length (text' b1) \<rparr>]);
         offs = offsets b1 @
           [\<lparr> Offset.start_idx = length (text' b1), width = 0 \<rparr>];
         hid = height_manager_install r max_ascent;
         lid = left_manager_install r (x b1);
         bid = bottom_manager_install r (y b1)
     in \<lparr> cur_text_idx = 0, cur_state_iter = sts, cur_offset_iter = offs,
          dx = 0, stack = [], last_text_pos_with_negative_offset = 0,
          out = [Line_open (tm_id b1) lid hid bid] \<rparr>)"

definition flush :: "Renderer \<Rightarrow> TextLineBuffer \<Rightarrow> Flushed option" where
  "flush r b =
    (if text' b = [] then Some \<lparr> page = [], cerr = [], buffer = b \<rparr>
     else if states b = [] \<or> State.start_idx (states b ! 0) \<noteq> 0
     then Some \<lparr> page = [],
                 cerr = [''Warning: text without a style! Must be a bug in pdf2htmlEX''],
                 buffer = b \<rparr>
     else
       (case optimize r b of
          None \<Rightarrow> None
        | Some b1 \<Rightarrow>
            (case walk r (text' b1) (first_walk r b1) of
               None \<Rightarrow> None
             | Some w \<Rightarrow>
                 Some \<lparr> page = out w @ concat (map State_end (stack w)) @ [Line_close],
                        cerr = [],
                        buffer = b1\<lparr> states := [], offsets := [], text' := [] \<rparr> \<rparr>)))"

section \<open>The claims' vocabulary\<close>

text \<open>
  A channel is free in a state when its byte of \<^verbatim>\<open>hash_umask\<close> is not zero (the
  test of \<^verbatim>\<open>State::begin\<close>), bound otherwise. The source only ever sets or clears
  whole bytes of the mask (\<^verbatim>\<open>umask_by_id\<close>); \<open>whole_umask\<close> says so of a state.
  \<open>mismatches a b\<close> counts the channels bound in both states whose ids differ.
\<close>

definition channel_free :: "State \<Rightarrow> nat \<Rightarrow> bool" where
  "channel_free s i \<longleftrightarrow> hash_umask s AND umask_by_id i \<noteq> 0"


definition mismatches :: "State \<Rightarrow> State \<Rightarrow> nat" where
  "mismatches a b =
     length (filter (\<lambda>i. \<not> channel_free a i \<and> \<not> channel_free b i \<and> ids a ! i \<noteq> ids b ! i)
               [0..<ID_COUNT])"


text \<open>
  The vocabulary of \<^verbatim>\<open>State::begin\<close>. A channel \<open>inherits\<close> when it is free in the
  state and bound in the parent; it \<open>emits\<close> when it is bound in the state, unless the
  parent has it bound to the same id. \<open>class_token\<close> is the class name of a channel
  with its id (the sentinel for the id -1), \<open>of_channel i\<close> holds of the class tokens of
  channel \<open>i\<close>, \<open>span_tag\<close> is the opening tag that carries a non-empty list of class
  tokens. \<open>channel_value\<close> is the value the state stores beside the id of a channel
  (font size, letter space and word space store one). \<open>begun k s prev s'\<close> relates the
  state \<open>s\<close> to what the first \<open>k\<close> rounds of the loop make of it.
\<close>

definition inherits :: "State \<Rightarrow> State option \<Rightarrow> nat \<Rightarrow> bool" where
  "inherits s prev i \<longleftrightarrow>
     channel_free s i \<and> (case prev of None \<Rightarrow> False | Some p \<Rightarrow> \<not> channel_free p i)"

definition emits :: "State \<Rightarrow> State option \<Rightarrow> nat \<Rightarrow> bool" where
  "emits s prev i \<longleftrightarrow>
     \<not> channel_free s i
     \<and> \<not> (case prev of None \<Rightarrow> False
                        | Some p \<Rightarrow> \<not> channel_free p i \<and> ids p ! i = ids s ! i)"

definition class_token :: "State \<Rightarrow> nat \<Rightarrow> token" where
  "class_token s i = (if ids s ! i = - 1 then Class_invalid i else Class_id i (ids s ! i))"


definition spaced :: "token list \<Rightarrow> token list" where
  "spaced toks = (case toks of [] \<Rightarrow> [] | t # ts \<Rightarrow> t # concat (map (\<lambda>t. [Blank, t]) ts))"

definition span_tag :: "token list \<Rightarrow> token list" where
  "span_tag toks = (if toks = [] then [] else Span_open # spaced toks @ [Tag_end])"

definition channel_value :: "nat \<Rightarrow> State \<Rightarrow> real" where
  "channel_value i s =
     (if i = FONT_SIZE_ID then draw_font_size s
      else if i = LETTER_SPACE_ID then letter_space s
      else if i = WORD_SPACE_ID then word_space s
      else 0)"

definition begun :: "nat \<Rightarrow> State \<Rightarrow> State option \<Rightarrow> State \<Rightarrow> bool" where
  "begun k s prev s' \<longleftrightarrow>
     length (ids s') = length (ids s)
     \<and> (\<forall>i<ID_COUNT. ids s' ! i =
           (if i < k \<and> inherits s prev i then ids (the prev) ! i else ids s ! i))
     \<and> (\<forall>i<ID_COUNT. channel_free s' i = (channel_free s i \<and> \<not> (i < k \<and> inherits s prev i)))
     \<and> (\<forall>i<ID_COUNT. channel_value i s' =
           (if i < k \<and> inherits s prev i then channel_value i (the prev) else channel_value i s))
     \<and> font_info s' = font_info s \<and> State.start_idx s' = State.start_idx s
     \<and> hash_value s' = hash_value s"

text \<open>
  The elements a fragment opens and closes: the line wrapper, the style wrappers and the
  gap elements (a gap element is written whole, opened and closed). \<open>boundaries n cur xs\<close>
  says of the start indices from an iterator on that they end with the sentinel \<open>n\<close>,
  increase strictly up to it, and that none lies before \<open>cur\<close>. \<open>walk_ok\<close> is the
  invariant of the loop of \<^verbatim>\<open>flush\<close>: the boundaries of both iterators, a state to
  begin when the stack is empty, and one pending close for the line and for every
  element of the stack that owns one.
\<close>

definition opens :: "token \<Rightarrow> nat" where
  "opens t = (case t of Line_open a b c d \<Rightarrow> 1 | Span_open \<Rightarrow> 1 | Whitespace_span w sp \<Rightarrow> 1
              | _ \<Rightarrow> 0)"

definition closes :: "token \<Rightarrow> nat" where
  "closes t = (case t of Line_close \<Rightarrow> 1 | Span_close \<Rightarrow> 1 | Whitespace_span w sp \<Rightarrow> 1
               | _ \<Rightarrow> 0)"

definition opened_count :: "token list \<Rightarrow> nat" where
  "opened_count ts = sum_list (map opens ts)"

definition closed_count :: "token list \<Rightarrow> nat" where
  "closed_count ts = sum_list (map closes ts)"

definition boundaries :: "nat \<Rightarrow> nat \<Rightarrow> nat list \<Rightarrow> bool" where
  "boundaries n cur xs \<longleftrightarrow>
     xs \<noteq> [] \<and> last xs = n \<and> cur \<le> hd xs
     \<and> sorted_wrt (\<lambda>a b. a < b \<or> b = n) xs \<and> list_all (\<lambda>a. a \<le> n) xs"

definition walk_ok :: "nat \<Rightarrow> Walk \<Rightarrow> bool" where
  "walk_ok n w \<longleftrightarrow>
     boundaries n (cur_text_idx w) (map State.start_idx (cur_state_iter w))
     \<and> boundaries n (cur_text_idx w) (map Offset.start_idx (cur_offset_iter w))
     \<and> (stack w \<noteq> [] \<or> State.start_idx (hd (cur_state_iter w)) \<le> cur_text_idx w)
     \<and> opened_count (out w) = closed_count (out w) + 1 + length (filter need_close (stack w))"

definition balanced_walk :: "Walk \<Rightarrow> bool" where
  "balanced_walk w \<longleftrightarrow>
     opened_count (out w) = closed_count (out w) + 1 + length (filter need_close (stack w))"

text \<open>
  A line of one style: \<open>same_style a s\<close> says that \<open>s\<close> has the ids, the key and the
  free channels of \<open>a\<close>. \<open>style_elements\<close> counts the style wrappers a fragment opens,
  \<open>line_wrappers\<close> its line wrappers. \<open>uniform_walk a\<close> is the invariant of the loop on
  such a line: the states still to come (the sentinel apart) and the elements of the
  stack have the style of \<open>a\<close>, and one style wrapper has been opened once the stack is
  not empty.
\<close>

definition same_style :: "State \<Rightarrow> State \<Rightarrow> bool" where
  "same_style a s \<longleftrightarrow>
     ids s = ids a \<and> hash_value s = hash_value a
     \<and> (\<forall>i<ID_COUNT. channel_free s i = channel_free a i)"

definition is_line_open :: "token \<Rightarrow> bool" where
  "is_line_open t = (case t of Line_open a b c d \<Rightarrow> True | _ \<Rightarrow> False)"

definition style_elements :: "token list \<Rightarrow> nat" where
  "style_elements ts = length (filter (\<lambda>t. t = Span_open) ts)"

definition line_wrappers :: "token list \<Rightarrow> nat" where
  "line_wrappers ts = length (filter is_line_open ts)"

definition uniform_walk :: "State \<Rightarrow> Walk \<Rightarrow> bool" where
  "uniform_walk a w \<longleftrightarrow>
     list_all (same_style a) (butlast (cur_state_iter w))
     \<and> list_all (same_style a) (stack w)
     \<and> style_elements (out w) = (if stack w = [] then 0 else 1)
     \<and> line_wrappers (out w) = 1"








section \<open>Example inputs\<close>

definition font1 :: FontInfo where
  "font1 = \<lparr> font_id = 1, ascent = 3 / 4, descent = - 1 / 4, space_width = 1 / 4 \<rparr>"

definition renderer1 :: Renderer where
  "renderer1 = \<lparr> cur_font_info = font1,
      font_size_manager_id = 2, font_size_manager_actual_value = 10,
      fill_color_manager_id = 3, stroke_color_manager_id = 4,
      letter_space_manager_id = 5, letter_space_manager_actual_value = 0,
      word_space_manager_id = 6, word_space_manager_actual_value = 0,
      rise_manager_id = 7, transform_matrix_manager_id = 0,
      word_space_manager_install = (\<lambda>v. (8, v)),
      whitespace_manager_install = (\<lambda>v. (9, v)),
      height_manager_install = (\<lambda>v. 0),
      left_manager_install = (\<lambda>v. 0),
      bottom_manager_install = (\<lambda>v. 0),
      h_eps = 1 / 10000, space_threshold = 1 / 8, EPS = 1 / 1000000 \<rparr>"


text \<open>The state of a snapshot of \<open>renderer1\<close>, and a walk that stands at an offset of width \<open>v\<close>
  with a carry of one half.\<close>

definition styled_state :: State where
  "styled_state = hash (set_state renderer1 zero_State)"

definition walk_at :: "real \<Rightarrow> Walk" where
  "walk_at v = \<lparr> cur_text_idx = 5, cur_state_iter = [],
      cur_offset_iter = [\<lparr> Offset.start_idx = 5, width = v \<rparr>], dx = 1 / 2,
      stack = [styled_state], last_text_pos_with_negative_offset = 0, out = [] \<rparr>"


text \<open>A line of three segments with a gap, a change of font size and a negative offset.\<close>

definition sample_line :: "append_call list" where
  "sample_line =
    [Append_state renderer1, Append_unicodes [72, 32, 105], Append_offset 5,
     Append_unicodes [121, 111],
     Append_state (renderer1\<lparr> font_size_manager_id := 12 \<rparr>), Append_unicodes [33, 32],
     Append_offset (- 3), Append_state renderer1, Append_unicodes [32, 34]]"

text \<open>A line of two segments of one style, each with a literal space.\<close>

definition uniform_line :: "append_call list" where
  "uniform_line =
    [Append_state renderer1, Append_unicodes [72, 32, 105],
     Append_state renderer1, Append_unicodes [121, 32, 111]]"


section \<open>The accumulator: offsets and state snapshots\<close>

lemma set_state_ids:
  "length (ids s) = ID_COUNT \<Longrightarrow>
   ids (set_state r s) =
     [font_id (cur_font_info r), font_size_manager_id r, fill_color_manager_id r,
      stroke_color_manager_id r, letter_space_manager_id r, word_space_manager_id r,
      rise_manager_id r]"
  by (auto simp: set_state_def ID_defs length_Suc_conv eval_nat_numeral)

lemma set_state_twice:
  "length (ids s) = ID_COUNT \<Longrightarrow> set_state r2 (set_state r1 s) = set_state r2 s"
  by (auto simp: set_state_def ID_defs length_Suc_conv eval_nat_numeral)

lemma offsets_ok_append_offset: "offsets_ok b \<Longrightarrow> offsets_ok (append_offset w b)"
  apply (cases "offsets b" rule: rev_cases)
  apply (auto simp: offsets_ok_def append_offset_def sorted_wrt_append list_all_iff)
  done

lemma offsets_ok_append_unicodes: "offsets_ok b \<Longrightarrow> offsets_ok (append_unicodes u b)"
  by (auto simp: offsets_ok_def append_unicodes_def list_all_iff)

lemma offsets_ok_append_state: "offsets_ok b \<Longrightarrow> offsets_ok (append_state r b)"
  by (auto simp: offsets_ok_def append_state_def Let_def)

lemma offsets_ok_do_append: "offsets_ok b \<Longrightarrow> offsets_ok (do_append b c)"
  by (cases c) (simp_all add: offsets_ok_append_offset offsets_ok_append_unicodes offsets_ok_append_state)

lemma offsets_ok_appends: "offsets_ok b \<Longrightarrow> offsets_ok (appends cs b)"
  unfolding appends_def
  by (induction cs arbitrary: b) (simp_all add: offsets_ok_do_append)

lemma offsets_ok_empty: "offsets_ok empty_buffer"
  by (simp add: offsets_ok_def empty_buffer_def)



text \<open>
  Claim C10. When the last state segment already starts at the current text length,
  \<^verbatim>\<open>append_state\<close> creates no segment: it overwrites the seven ids and the
  values of that segment with the renderer's current style, so of several snapshots
  taken at one text position only the last one stays.
\<close>

theorem append_state_overwrites:
  assumes "states b \<noteq> []"
    and "State.start_idx (last (states b)) = length (text' b)"
    and "length (ids (last (states b))) = ID_COUNT"
  shows "states (append_state r b) = butlast (states b) @ [set_state r (last (states b))]
    \<and> length (states (append_state r b)) = length (states b)
    \<and> ids (last (states (append_state r b))) =
         [font_id (cur_font_info r), font_size_manager_id r, fill_color_manager_id r,
          stroke_color_manager_id r, letter_space_manager_id r, word_space_manager_id r,
          rise_manager_id r]
    \<and> font_info (last (states (append_state r b))) = cur_font_info r
    \<and> draw_font_size (last (states (append_state r b))) = font_size_manager_actual_value r
    \<and> letter_space (last (states (append_state r b))) = letter_space_manager_actual_value r
    \<and> word_space (last (states (append_state r b))) = word_space_manager_actual_value r
    \<and> State.start_idx (last (states (append_state r b))) = length (text' b)
    \<and> states (append_state r (append_state r0 b)) = states (append_state r b)"
proof -
  have a: "states (append_state r b) = butlast (states b) @ [set_state r (last (states b))]"
    using assms by (simp add: append_state_def Let_def)
  have l: "length (states (append_state r b)) = length (states b)"
    using assms(1) by (simp add: a)
  have i: "ids (last (states (append_state r b))) =
         [font_id (cur_font_info r), font_size_manager_id r, fill_color_manager_id r,
          stroke_color_manager_id r, letter_space_manager_id r, word_space_manager_id r,
          rise_manager_id r]"
    using assms(3) by (simp add: a set_state_ids)
  have v: "font_info (last (states (append_state r b))) = cur_font_info r
    \<and> draw_font_size (last (states (append_state r b))) = font_size_manager_actual_value r
    \<and> letter_space (last (states (append_state r b))) = letter_space_manager_actual_value r
    \<and> word_space (last (states (append_state r b))) = word_space_manager_actual_value r
    \<and> State.start_idx (last (states (append_state r b))) = length (text' b)"
    using assms(2) by (simp add: a set_state_def)
  have a0: "states (append_state r0 b) = butlast (states b) @ [set_state r0 (last (states b))]"
    using assms by (simp add: append_state_def Let_def)
  have t: "states (append_state r (append_state r0 b)) = states (append_state r b)"
    using assms by (simp add: append_state_def Let_def set_state_twice) (simp add: set_state_def)
  show ?thesis using a l i v t by blast
qed

theorem append_state_overwrites_witness:
  "states (append_state (renderer1\<lparr> font_size_manager_id := 12 \<rparr>)
             (append_state renderer1 empty_buffer)) =
     [set_state (renderer1\<lparr> font_size_manager_id := 12 \<rparr>)
        (zero_State\<lparr> State.start_idx := 0, hash_umask := 0 \<rparr>)]
   \<and> ids (last (states (append_state (renderer1\<lparr> font_size_manager_id := 12 \<rparr>)
             (append_state renderer1 empty_buffer)))) = [1, 12, 3, 4, 5, 6, 7]"
  using append_state_overwrites [of "append_state renderer1 empty_buffer"
      "renderer1\<lparr> font_size_manager_id := 12 \<rparr>" renderer1]
  by (simp add: append_state_def empty_buffer_def set_state_def zero_State_def ID_defs
      renderer1_def font1_def eval_nat_numeral)

section \<open>The cost of a parent: diff\<close>



lemma umask_by_id_Suc: "push_bit 8 (umask_by_id i) = umask_by_id (Suc i)"
  by (simp add: umask_by_id_def push_bit_push_bit add.commute)














text \<open>
  A state whose word-space channel is free and a state that differs from it in the font
  size only: \<^verbatim>\<open>hash\<close> packs channel \<open>i\<close> into byte \<open>6 - i\<close> of the key while
  \<^verbatim>\<open>umask_by_id i\<close> masks byte \<open>i\<close>, so the fast path of \<^verbatim>\<open>diff\<close> drops the
  byte of the font size and answers 0.
\<close>

lemma diff_masks_the_wrong_byte:
  "mismatches (hash (zero_State\<lparr> ids := [0, 1, 0, 0, 0, 0, 0],
                                  hash_umask := umask_by_id WORD_SPACE_ID \<rparr>))
              (hash (zero_State\<lparr> ids := [0, 2, 0, 0, 0, 0, 0] \<rparr>)) = 1
   \<and> diff (hash (zero_State\<lparr> ids := [0, 1, 0, 0, 0, 0, 0],
                              hash_umask := umask_by_id WORD_SPACE_ID \<rparr>))
          (hash (zero_State\<lparr> ids := [0, 2, 0, 0, 0, 0, 0] \<rparr>)) = 0"
  by code_simp





section \<open>The search for a parent and the negative offsets\<close>

text \<open>
  The scan pops a prefix of the stack, and the elements popped were all reached before
  an element that starts at or before the last negative offset.
\<close>

lemma greedy_scan_pops:
  "\<exists>k. k \<le> length upper + length (takeWhile (\<lambda>e. last_neg < State.start_idx e) deeper)
     \<and> greedy_scan cur last_neg upper deeper best_cost =
         (drop k (upper @ deeper), concat (map State_end (take k (upper @ deeper))))"
proof (induction deeper arbitrary: upper best_cost)
  case Nil
  show ?case by (rule exI [of _ 0]) simp
next
  case (Cons e deeper)
  let ?P = "\<lambda>e. last_neg < State.start_idx e"
  show ?case
  proof (cases "diff cur e < best_cost")
    case better: True
    show ?thesis
    proof (cases "diff cur e = 0 \<or> State.start_idx e \<le> last_neg")
      case True
      show ?thesis
        by (rule exI [of _ "length upper"]) (use better True in \<open>simp add: Let_def\<close>)
    next
      case False
      then have P: "?P e" by simp
      from Cons.IH [of "[e]" "diff cur e"] obtain k where
        k: "k \<le> length [e] + length (takeWhile ?P deeper)"
        and r: "greedy_scan cur last_neg [e] deeper (diff cur e) =
           (drop k ([e] @ deeper), concat (map State_end (take k ([e] @ deeper))))"
        by blast
      show ?thesis
        by (rule exI [of _ "length upper + k"])
           (use better False P k r in \<open>simp add: Let_def\<close>)
    qed
  next
    case worse: False
    show ?thesis
    proof (cases "State.start_idx e \<le> last_neg")
      case True
      show ?thesis
        by (rule exI [of _ 0]) (use worse True in \<open>simp add: Let_def\<close>)
    next
      case False
      then have P: "?P e" by simp
      from Cons.IH [of "upper @ [e]" best_cost] obtain k where
        k: "k \<le> length (upper @ [e]) + length (takeWhile ?P deeper)"
        and r: "greedy_scan cur last_neg (upper @ [e]) deeper best_cost =
           (drop k ((upper @ [e]) @ deeper), concat (map State_end (take k ((upper @ [e]) @ deeper))))"
        by blast
      show ?thesis
        by (rule exI [of _ k]) (use worse False P k r in \<open>simp add: Let_def\<close>)
    qed
  qed
qed




section \<open>Opening an element: begin and end\<close>

lemma bit_umask_by_id:
  "bit (umask_by_id i) n \<longleftrightarrow> 8 * i \<le> n \<and> n < 8 * i + 8 \<and> n < 64"
proof -
  have m: "(0xff :: llong) = mask 8"
    by (simp add: mask_eq_exp_minus_1)
  show ?thesis
    unfolding umask_by_id_def m
    by (auto simp: bit_push_bit_iff bit_mask_iff)
qed

lemma umask_disjoint:
  assumes "i \<noteq> k"
  shows "(u AND NOT (umask_by_id k)) AND umask_by_id i = u AND umask_by_id i"
proof (rule bit_eqI)
  fix n
  show "bit ((u AND NOT (umask_by_id k)) AND umask_by_id i) n = bit (u AND umask_by_id i) n"
    using assms by (auto simp: bit_simps bit_umask_by_id)
qed

lemma umask_cleared: "(u AND NOT (umask_by_id k)) AND umask_by_id k = 0"
  by (rule bit_eqI) (auto simp: bit_simps)

lemma channel_free_cleared:
  "channel_free (copy_value j p (s\<lparr> ids := xs, hash_umask := hash_umask s AND NOT (umask_by_id k) \<rparr>)) i
     \<longleftrightarrow> i \<noteq> k \<and> channel_free s i"
  by (cases "i = k")
     (simp_all add: channel_free_def copy_value_def umask_cleared umask_disjoint)


lemma begun_start: "begun 0 s prev s"
  by (simp add: begun_def)

lemma copy_value_fields:
  "ids (copy_value i p s) = ids s" "hash_umask (copy_value i p s) = hash_umask s"
  "font_info (copy_value i p s) = font_info s"
  "State.start_idx (copy_value i p s) = State.start_idx s"
  "hash_value (copy_value i p s) = hash_value s"
  "need_close (copy_value i p s) = need_close s"
  by (simp_all add: copy_value_def)

lemma channel_value_copy:
  "channel_value i (copy_value k p (s\<lparr> ids := xs, hash_umask := u \<rparr>)) =
     (if i = k then channel_value i p else channel_value i s)"
  by (auto simp: channel_value_def copy_value_def ID_defs)


lemma begin_round_eq:
  "begin_round prev k (s', acc, first, umask_by_id k) =
    (if channel_free s' k then
       (case prev of
          None \<Rightarrow> (s', acc, first, umask_by_id (Suc k))
        | Some p \<Rightarrow>
            if \<not> channel_free p k
            then (copy_value k p
                    (s'\<lparr> ids := (ids s')[k := ids p ! k],
                         hash_umask := hash_umask s' AND NOT (umask_by_id k) \<rparr>),
                  acc, first, umask_by_id (Suc k))
            else (s', acc, first, umask_by_id (Suc k)))
     else if (case prev of None \<Rightarrow> False
                | Some p \<Rightarrow> \<not> channel_free p k \<and> ids p ! k = ids s' ! k)
     then (s', acc, first, umask_by_id (Suc k))
     else (s', acc @ [if first then Span_open else Blank, class_token s' k], False,
           umask_by_id (Suc k)))"
  by (simp add: begin_round_def channel_free_def umask_by_id_Suc class_token_def
      split: option.splits)

lemma begun_unchanged:
  assumes "begun k s prev s'" and "\<not> inherits s prev k"
  shows "begun (Suc k) s prev s'"
  using assms unfolding begun_def
  by (auto simp: less_Suc_eq)

lemma begun_inherit:
  assumes inv: "begun k s prev s'" and inh: "inherits s prev k" and p: "prev = Some p"
    and k: "k < ID_COUNT" and len: "length (ids s) = ID_COUNT"
  shows "begun (Suc k) s prev
           (copy_value k p (s'\<lparr> ids := (ids s')[k := ids p ! k],
                                 hash_umask := hash_umask s' AND NOT (umask_by_id k) \<rparr>))"
proof -
  let ?s = "copy_value k p (s'\<lparr> ids := (ids s')[k := ids p ! k],
                                 hash_umask := hash_umask s' AND NOT (umask_by_id k) \<rparr>)"
  from inv have l: "length (ids s') = length (ids s)"
    and i: "\<And>i. i < ID_COUNT \<Longrightarrow> ids s' ! i =
           (if i < k \<and> inherits s prev i then ids (the prev) ! i else ids s ! i)"
    and f: "\<And>i. i < ID_COUNT \<Longrightarrow>
           channel_free s' i = (channel_free s i \<and> \<not> (i < k \<and> inherits s prev i))"
    and v: "\<And>i. i < ID_COUNT \<Longrightarrow> channel_value i s' =
           (if i < k \<and> inherits s prev i then channel_value i (the prev) else channel_value i s)"
    and o: "font_info s' = font_info s" "State.start_idx s' = State.start_idx s"
           "hash_value s' = hash_value s"
    unfolding begun_def by blast+
  have 1: "length (ids ?s) = length (ids s)"
    by (simp add: copy_value_fields l)
  have 2: "ids ?s ! i = (if i < Suc k \<and> inherits s prev i then ids (the prev) ! i else ids s ! i)"
    if "i < ID_COUNT" for i
    using that i [of i] inh p k l len
    by (cases "i = k") (auto simp: copy_value_fields less_Suc_eq)
  have 3: "channel_free ?s i = (channel_free s i \<and> \<not> (i < Suc k \<and> inherits s prev i))"
    if "i < ID_COUNT" for i
    using that f [of i] inh
    by (cases "i = k") (auto simp: channel_free_cleared less_Suc_eq inherits_def)
  have 4: "channel_value i ?s =
           (if i < Suc k \<and> inherits s prev i then channel_value i (the prev) else channel_value i s)"
    if "i < ID_COUNT" for i
    using that v [of i] inh p
    by (cases "i = k") (auto simp: channel_value_copy less_Suc_eq)
  have 5: "font_info ?s = font_info s" "State.start_idx ?s = State.start_idx s"
           "hash_value ?s = hash_value s"
    using o by (simp_all add: copy_value_fields)
  show ?thesis
    unfolding begun_def using 1 2 3 4 5 by blast
qed


lemma begin_round_step:
  assumes inv: "begun k s prev s'" and k: "k < ID_COUNT" and len: "length (ids s) = ID_COUNT"
  shows "\<exists>s''. begin_round prev k (s', acc, first, umask_by_id k) =
           (s'', acc @ (if emits s prev k
                        then [if first then Span_open else Blank, class_token s k] else []),
            first \<and> \<not> emits s prev k, umask_by_id (Suc k))
         \<and> begun (Suc k) s prev s'' \<and> need_close s'' = need_close s'"
proof -
  from inv k have i: "ids s' ! k = ids s ! k" and f: "channel_free s' k = channel_free s k"
    unfolding begun_def by auto
  have c: "class_token s' k = class_token s k"
    by (simp add: class_token_def i)
  show ?thesis
  proof (cases "channel_free s k")
    case free: True
    then have ne: "\<not> emits s prev k" by (simp add: emits_def)
    show ?thesis
    proof (cases "inherits s prev k")
      case True
      then obtain p where p: "prev = Some p" "\<not> channel_free p k"
        by (auto simp: inherits_def split: option.splits)
      show ?thesis
        using begun_inherit [OF inv True p(1) k len] p free f ne
        by (simp add: begin_round_eq copy_value_fields)
    next
      case False
      then show ?thesis
        using begun_unchanged [OF inv False] free f ne
        by (auto simp: begin_round_eq inherits_def split: option.splits)
    qed
  next
    case bound: False
    then have ni: "\<not> inherits s prev k" by (simp add: inherits_def)
    show ?thesis
      using begun_unchanged [OF inv ni] bound f i c
      by (auto simp: begin_round_eq emits_def split: option.splits)
  qed
qed

lemma spaced_snoc:
  "spaced (toks @ [t]) = (if toks = [] then [t] else spaced toks @ [Blank, t])"
  by (cases toks) (simp_all add: spaced_def)

lemma begin_fold:
  assumes len: "length (ids s) = ID_COUNT" and k: "k \<le> ID_COUNT"
  shows "\<exists>s'. fold (begin_round prev) [0..<k] (s, [], True, umask_by_id 0) =
           (s', (if filter (emits s prev) [0..<k] = [] then []
                 else Span_open # spaced (map (class_token s) (filter (emits s prev) [0..<k]))),
            filter (emits s prev) [0..<k] = [], umask_by_id k)
         \<and> begun k s prev s' \<and> need_close s' = need_close s"
  using k
proof (induction k)
  case 0
  show ?case by (simp add: begun_start)
next
  case (Suc k)
  then obtain s' where
    fo: "fold (begin_round prev) [0..<k] (s, [], True, umask_by_id 0) =
           (s', (if filter (emits s prev) [0..<k] = [] then []
                 else Span_open # spaced (map (class_token s) (filter (emits s prev) [0..<k]))),
            filter (emits s prev) [0..<k] = [], umask_by_id k)"
    and b: "begun k s prev s'" and n: "need_close s' = need_close s"
    by auto
  from Suc.prems have k: "k < ID_COUNT" by simp
  from begin_round_step [OF b k len] obtain s'' where
    st: "begin_round prev k (s', (if filter (emits s prev) [0..<k] = [] then []
                 else Span_open # spaced (map (class_token s) (filter (emits s prev) [0..<k]))),
            filter (emits s prev) [0..<k] = [], umask_by_id k) =
           (s'', (if filter (emits s prev) [0..<k] = [] then []
                 else Span_open # spaced (map (class_token s) (filter (emits s prev) [0..<k])))
             @ (if emits s prev k
                then [if filter (emits s prev) [0..<k] = [] then Span_open else Blank,
                      class_token s k] else []),
            filter (emits s prev) [0..<k] = [] \<and> \<not> emits s prev k, umask_by_id (Suc k))"
    and b': "begun (Suc k) s prev s''" and n': "need_close s'' = need_close s'"
    by blast
  show ?case
    by (rule exI [of _ s'']) (simp add: fo st b' n n' spaced_snoc)
qed






lemma need_close_update_fields:
  "channel_free (s\<lparr> need_close := b \<rparr>) i = channel_free s i"
  "channel_value i (s\<lparr> need_close := b \<rparr>) = channel_value i s"
  by (simp_all add: channel_free_def channel_value_def)

lemma State_begin_eq:
  assumes len: "length (ids s) = ID_COUNT"
  shows "\<exists>s'. begun ID_COUNT s prev s'
     \<and> State_begin s prev =
         (s'\<lparr> need_close := (\<exists>j<ID_COUNT. emits s prev j) \<rparr>,
          span_tag (map (class_token s) (filter (emits s prev) [0..<ID_COUNT])))"
proof -
  have m: "(0xff :: llong) = umask_by_id 0"
    by (simp add: umask_by_id_def)
  from begin_fold [OF len order_refl, of prev] obtain s' where
    fo: "fold (begin_round prev) [0..<ID_COUNT] (s, [], True, umask_by_id 0) =
           (s', (if filter (emits s prev) [0..<ID_COUNT] = [] then []
                 else Span_open # spaced (map (class_token s) (filter (emits s prev) [0..<ID_COUNT]))),
            filter (emits s prev) [0..<ID_COUNT] = [], umask_by_id ID_COUNT)"
    and b: "begun ID_COUNT s prev s'"
    by blast
  have e: "(filter (emits s prev) [0..<ID_COUNT] = []) = (\<not> (\<exists>j<ID_COUNT. emits s prev j))"
    by (auto simp: filter_empty_conv)
  show ?thesis
    by (rule exI [of _ s']) (simp add: b State_begin_def m fo span_tag_def e)
qed





section \<open>The resolution of an offset\<close>

lemma styled_state_fields:
  "word_space styled_state = 0" "letter_space styled_state = 0"
  "draw_font_size styled_state = 10" "font_info styled_state = font1"
  "hash_umask styled_state = 0"
  by (simp_all add: styled_state_def hash_def set_state_def zero_State_def renderer1_def)

text \<open>
  Claim C1, as the code has it. At an offset boundary, with \<open>target\<close> the width of the
  offset plus the carry: when \<open>|target| \<le> h_eps\<close> nothing is written and the actual
  offset is 0; else, when the word-space channel of the state on top of the stack is
  bound and \<open>target\<close> is within \<open>h_eps\<close> of its natural space, one space character is
  written and the actual offset is the natural space; else \<open>target\<close> is installed in
  the whitespace manager, and a gap element of the returned id is written unless the
  returned actual offset is within \<open>EPS\<close> of 0 (then nothing is written); the element
  holds a space exactly when \<open>target\<close> is above the threshold (the em size of the state
  times \<open>space_threshold\<close>) minus \<open>EPS\<close>. In every case the new carry is \<open>target\<close>
  minus the actual offset.
\<close>

theorem offset_boundary_resolves:
  assumes "cur_offset_iter w = off # rest"
    and "stack w = cur_state # stk"
    and "Offset.start_idx off \<le> cur_text_idx w"
  shows "\<exists>w'. offset_boundary r w = Some w' \<and> cur_offset_iter w' = rest
     \<and> (let target = width off + dx w;
             natural_space = word_space cur_state + letter_space cur_state
                + space_width (font_info cur_state) * draw_font_size cur_state;
             wid = fst (whitespace_manager_install r target);
             actual = snd (whitespace_manager_install r target)
         in if \<bar>target\<bar> \<le> h_eps r
            then out w' = out w \<and> dx w' = target - 0
              \<and> last_text_pos_with_negative_offset w' = last_text_pos_with_negative_offset w
            else if \<not> channel_free cur_state WORD_SPACE_ID \<and> \<bar>target - natural_space\<bar> \<le> h_eps r
            then out w' = out w @ [Unicodes [32]] \<and> dx w' = target - natural_space
              \<and> last_text_pos_with_negative_offset w' = last_text_pos_with_negative_offset w
            else if \<bar>actual\<bar> \<le> EPS r
            then out w' = out w \<and> dx w' = target - actual
              \<and> last_text_pos_with_negative_offset w' = last_text_pos_with_negative_offset w
            else out w' = out w @ [Whitespace_span wid
                    (target > em_size cur_state * space_threshold r - EPS r)]
              \<and> dx w' = target - actual
              \<and> last_text_pos_with_negative_offset w' =
                  (if actual < - EPS r then cur_text_idx w
                   else last_text_pos_with_negative_offset w))"
  using assms
  by (cases "whitespace_manager_install r (width off + dx w)")
     (simp add: offset_boundary_def resolve_offset_def Let_def channel_free_def
        single_space_offset_def equal_eps_def is_positive_def)

theorem offset_boundary_resolves_witness:
  "(\<exists>w'. offset_boundary renderer1 (walk_at 2) = Some w'
        \<and> out w' = [Unicodes [32]] \<and> dx w' = 0
        \<and> last_text_pos_with_negative_offset w' = 0)
   \<and> (\<exists>w'. offset_boundary renderer1 (walk_at 5) = Some w'
        \<and> out w' = [Whitespace_span 9 True] \<and> dx w' = 0
        \<and> last_text_pos_with_negative_offset w' = 0)
   \<and> (\<exists>w'. offset_boundary renderer1 (walk_at (- 1)) = Some w'
        \<and> out w' = [Whitespace_span 9 False] \<and> dx w' = 0
        \<and> last_text_pos_with_negative_offset w' = 5)
   \<and> (\<exists>w'. offset_boundary renderer1 (walk_at (- 1 / 2)) = Some w'
        \<and> out w' = [] \<and> dx w' = 0
        \<and> last_text_pos_with_negative_offset w' = 0)"
proof -
  have a: "cur_offset_iter (walk_at v) = \<lparr> Offset.start_idx = 5, width = v \<rparr> # []"
    "stack (walk_at v) = styled_state # []"
    "Offset.start_idx \<lparr> Offset.start_idx = 5, width = v \<rparr> \<le> cur_text_idx (walk_at v)" for v
    by (simp_all add: walk_at_def)
  have f: "\<not> channel_free styled_state WORD_SPACE_ID"
    by (simp add: channel_free_def styled_state_fields)
  have 1: "\<exists>w'. offset_boundary renderer1 (walk_at 2) = Some w'
        \<and> out w' = [Unicodes [32]] \<and> dx w' = 0
        \<and> last_text_pos_with_negative_offset w' = 0"
    using offset_boundary_resolves [OF a [of 2], where r = renderer1] f
    by (auto simp add: Let_def styled_state_fields walk_at_def renderer1_def font1_def em_size_def)
  have 2: "\<exists>w'. offset_boundary renderer1 (walk_at 5) = Some w'
        \<and> out w' = [Whitespace_span 9 True] \<and> dx w' = 0
        \<and> last_text_pos_with_negative_offset w' = 0"
    using offset_boundary_resolves [OF a [of 5], where r = renderer1] f
    by (auto simp add: Let_def styled_state_fields walk_at_def renderer1_def font1_def em_size_def)
  have 3: "\<exists>w'. offset_boundary renderer1 (walk_at (- 1)) = Some w'
        \<and> out w' = [Whitespace_span 9 False] \<and> dx w' = 0
        \<and> last_text_pos_with_negative_offset w' = 5"
    using offset_boundary_resolves [OF a [of "- 1"], where r = renderer1] f
    by (auto simp add: Let_def styled_state_fields walk_at_def renderer1_def font1_def em_size_def)
  have 4: "\<exists>w'. offset_boundary renderer1 (walk_at (- 1 / 2)) = Some w'
        \<and> out w' = [] \<and> dx w' = 0
        \<and> last_text_pos_with_negative_offset w' = 0"
    using offset_boundary_resolves [OF a [of "- 1 / 2"], where r = renderer1] f
    by (auto simp add: Let_def styled_state_fields walk_at_def renderer1_def font1_def em_size_def)
  show ?thesis using 1 2 3 4 by blast
qed

text \<open>
  The claim as stated fails in its third case: with \<open>h_eps = 0\<close> a target of one ten
  millionth is neither absorbed nor a natural space, it is installed, and no gap element
  is written because the actual offset is within \<open>EPS\<close> of 0.
\<close>

theorem no_gap_element_for_tiny_actual_offset:
  "\<not> \<bar>1 / 10000000 :: real\<bar> \<le> h_eps (renderer1\<lparr> h_eps := 0 \<rparr>)
   \<and> \<not> \<bar>1 / 10000000 - single_space_offset styled_state\<bar> \<le> h_eps (renderer1\<lparr> h_eps := 0 \<rparr>)
   \<and> whitespace_manager_install (renderer1\<lparr> h_eps := 0 \<rparr>) (1 / 10000000) = (9, 1 / 10000000)
   \<and> resolve_offset (renderer1\<lparr> h_eps := 0 \<rparr>) styled_state (1 / 10000000) 5 0
        = ([], 1 / 10000000, 0)"
  by (simp add: resolve_offset_def single_space_offset_def styled_state_fields renderer1_def
      font1_def equal_eps_def)

section \<open>A line without a style\<close>

text \<open>
  Claim C6 on the code. Text appended before any state snapshot: \<^verbatim>\<open>flush\<close> writes the
  warning and nothing to the page, and returns before the three \<^verbatim>\<open>clear()\<close> calls at
  its end, so the text stays in the buffer. The next line, a snapshot and its text, is
  appended behind the stale text; its first state starts at index 1 and it is dropped
  as well.
\<close>

theorem flush_keeps_text_without_style:
  "flush renderer1 (append_unicodes [97] empty_buffer) =
     Some \<lparr> page = [],
            cerr = [''Warning: text without a style! Must be a bug in pdf2htmlEX''],
            buffer = append_unicodes [97] empty_buffer \<rparr>
   \<and> text' (append_unicodes [97] empty_buffer) = [97]
   \<and> flush renderer1
        (append_unicodes [98] (append_state renderer1 (append_unicodes [97] empty_buffer))) =
     Some \<lparr> page = [],
            cerr = [''Warning: text without a style! Must be a bug in pdf2htmlEX''],
            buffer = append_unicodes [98]
               (append_state renderer1 (append_unicodes [97] empty_buffer)) \<rparr>
   \<and> text' (append_unicodes [98] (append_state renderer1 (append_unicodes [97] empty_buffer)))
       = [97, 98]"
  by (simp add: flush_def append_unicodes_def append_state_def empty_buffer_def Let_def
      set_state_def zero_State_def)

section \<open>The fragment of a line is balanced\<close>

lemma opened_simps:
  "opened_count [] = 0" "opened_count (a @ b) = opened_count a + opened_count b" "opened_count (t # ts) = opens t + opened_count ts"
  by (simp_all add: opened_count_def)

lemma closed_simps:
  "closed_count [] = 0" "closed_count (a @ b) = closed_count a + closed_count b" "closed_count (t # ts) = closes t + closed_count ts"
  by (simp_all add: closed_count_def)

lemma boundaries_next:
  assumes "boundaries n cur (a # xs)" and "a \<le> cur" and "cur < n"
  shows "boundaries n (Suc cur) xs"
proof -
  from assms have a: "a = cur" by (simp add: boundaries_def)
  from assms have ne: "xs \<noteq> []" by (auto simp: boundaries_def)
  then obtain b ys where xs: "xs = b # ys" by (cases xs) auto
  from assms(1) have "a < b \<or> b = n" by (simp add: boundaries_def xs)
  then have "Suc cur \<le> b" using a assms(3) by auto
  then show ?thesis
    using assms(1) by (simp add: boundaries_def xs)
qed

lemma boundaries_skip:
  assumes "boundaries n cur (a # xs)" and "\<not> a \<le> cur"
  shows "boundaries n (Suc cur) (a # xs)"
  using assms by (simp add: boundaries_def)

lemma boundaries_le:
  assumes "boundaries n cur xs" and "c \<le> hd xs"
  shows "boundaries n c xs"
  using assms by (simp add: boundaries_def)

lemma boundaries_hd_le: "boundaries n cur xs \<Longrightarrow> hd xs \<le> n"
  by (cases xs) (simp_all add: boundaries_def)


lemma begin_round_balance:
  assumes "opened_count acc = (if first then 0 else 1)" and "closed_count acc = 0"
    and "begin_round prev i (s, acc, first, m) = (s', acc', first', m')"
  shows "opened_count acc' = (if first' then 0 else 1) \<and> closed_count acc' = 0"
  using assms
  by (auto simp: begin_round_def opened_simps closed_simps opens_def closes_def
      split: if_splits option.splits)

lemma begin_fold_balance:
  assumes "opened_count acc = (if first then 0 else 1)" and "closed_count acc = 0"
    and "fold (begin_round prev) xs (s, acc, first, m) = (s', acc', first', m')"
  shows "opened_count acc' = (if first' then 0 else 1) \<and> closed_count acc' = 0"
  using assms
proof (induction xs arbitrary: s acc first m)
  case Nil
  then show ?case by simp
next
  case (Cons i xs)
  obtain s1 acc1 first1 m1 where
    r: "begin_round prev i (s, acc, first, m) = (s1, acc1, first1, m1)"
    by (cases "begin_round prev i (s, acc, first, m)") auto
  from begin_round_balance [OF Cons.prems(1,2) r]
  have "opened_count acc1 = (if first1 then 0 else 1)" "closed_count acc1 = 0" by simp_all
  from Cons.IH [OF this] Cons.prems(3) r show ?case by simp
qed

lemma State_begin_balance:
  assumes "State_begin s prev = (s', written)"
  shows "opened_count written = (if need_close s' then 1 else 0) \<and> closed_count written = 0"
proof -
  obtain s1 acc1 first1 m1 where
    f: "fold (begin_round prev) [0..<ID_COUNT] (s, [], True, 0xff) = (s1, acc1, first1, m1)"
    by (cases "fold (begin_round prev) [0..<ID_COUNT] (s, [], True, 0xff)") auto
  have "opened_count acc1 = (if first1 then 0 else 1) \<and> closed_count acc1 = 0"
    by (rule begin_fold_balance [OF _ _ f]) (simp_all add: opened_simps closed_simps)
  then show ?thesis
    using assms f
    by (auto simp: State_begin_def opened_simps closed_simps opens_def closes_def
        split: if_splits)
qed

lemma State_end_balance:
  "opened_count (concat (map State_end xs)) = 0"
  "closed_count (concat (map State_end xs)) = length (filter need_close xs)"
  by (induction xs)
     (simp_all add: State_end_def opened_simps closed_simps opens_def closes_def)

lemma greedy_scan_balance:
  assumes "greedy_scan cur last_neg [] stk best = (stk', ended)"
  shows "opened_count ended = 0
    \<and> closed_count ended + length (filter need_close stk') = length (filter need_close stk)"
proof -
  from greedy_scan_pops [of "[]" last_neg stk cur best] assms obtain k where
    "stk' = drop k stk" "ended = concat (map State_end (take k stk))"
    by auto
  moreover have "length (filter need_close (take k stk)) + length (filter need_close (drop k stk))
      = length (filter need_close stk)"
    by (metis append_take_drop_id filter_append length_append)
  ultimately show ?thesis
    by (simp add: State_end_balance)
qed

lemma resolve_offset_balance:
  assumes "resolve_offset r cur_state target idx last_neg = (written, actual, last_neg')"
  shows "opened_count written = closed_count written"
  using assms
  by (auto simp: resolve_offset_def opened_simps closed_simps opens_def closes_def
      split: if_splits prod.splits)

lemma state_boundary_ok:
  assumes b: "boundaries n (cur_text_idx w) (map State.start_idx (cur_state_iter w))"
    and st: "stack w \<noteq> [] \<or> State.start_idx (hd (cur_state_iter w)) \<le> cur_text_idx w"
    and bal: "balanced_walk w" and lt: "cur_text_idx w < n"
  shows "\<exists>w1. state_boundary w = Some w1 \<and> cur_text_idx w1 = cur_text_idx w
     \<and> cur_offset_iter w1 = cur_offset_iter w \<and> dx w1 = dx w
     \<and> boundaries n (Suc (cur_text_idx w)) (map State.start_idx (cur_state_iter w1))
     \<and> stack w1 \<noteq> [] \<and> balanced_walk w1"
proof -
  from b obtain s rest where sr: "cur_state_iter w = s # rest"
    by (cases "cur_state_iter w") (auto simp: boundaries_def)
  show ?thesis
  proof (cases "State.start_idx s \<le> cur_text_idx w")
    case True
    obtain stk ended where
      g: "greedy_scan s (last_text_pos_with_negative_offset w) [] (stack w) ID_COUNT = (stk, ended)"
      by (cases "greedy_scan s (last_text_pos_with_negative_offset w) [] (stack w) ID_COUNT") auto
    obtain s' begun' where
      bg: "State_begin s (case stk of [] \<Rightarrow> None | p # _ \<Rightarrow> Some p) = (s', begun')"
      by (cases "State_begin s (case stk of [] \<Rightarrow> None | p # _ \<Rightarrow> Some p)") auto
    let ?w1 = "w\<lparr> cur_state_iter := rest, stack := s' # stk, out := out w @ ended @ begun' \<rparr>"
    have e: "state_boundary w = Some ?w1"
      using sr True g bg by (simp add: state_boundary_def)
    have nb: "boundaries n (Suc (cur_text_idx w)) (map State.start_idx rest)"
      using boundaries_next [OF _ True lt] b sr by simp
    have "balanced_walk ?w1"
      using bal greedy_scan_balance [OF g] State_begin_balance [OF bg]
      by (simp add: balanced_walk_def opened_simps closed_simps)
    then show ?thesis
      using e nb by (intro exI [of _ ?w1]) simp
  next
    case False
    have e: "state_boundary w = Some w"
      using sr False by (simp add: state_boundary_def)
    have nb: "boundaries n (Suc (cur_text_idx w)) (map State.start_idx (cur_state_iter w))"
      using boundaries_skip [OF _ False] b sr by simp
    show ?thesis
      using e nb st bal sr False by (intro exI [of _ w]) simp
  qed
qed

lemma offset_boundary_ok:
  assumes b: "boundaries n (cur_text_idx w) (map Offset.start_idx (cur_offset_iter w))"
    and st: "stack w \<noteq> []" and bal: "balanced_walk w" and lt: "cur_text_idx w < n"
  shows "\<exists>w2. offset_boundary r w = Some w2 \<and> cur_text_idx w2 = cur_text_idx w
     \<and> cur_state_iter w2 = cur_state_iter w \<and> stack w2 = stack w
     \<and> boundaries n (Suc (cur_text_idx w)) (map Offset.start_idx (cur_offset_iter w2))
     \<and> balanced_walk w2"
proof -
  from b obtain off rest where sr: "cur_offset_iter w = off # rest"
    by (cases "cur_offset_iter w") (auto simp: boundaries_def)
  from st obtain cur_state stk where stk: "stack w = cur_state # stk"
    by (cases "stack w") auto
  show ?thesis
  proof (cases "Offset.start_idx off \<le> cur_text_idx w")
    case True
    obtain written actual last_neg where
      ro: "resolve_offset r cur_state (width off + dx w) (cur_text_idx w)
             (last_text_pos_with_negative_offset w) = (written, actual, last_neg)"
      by (cases "resolve_offset r cur_state (width off + dx w) (cur_text_idx w)
             (last_text_pos_with_negative_offset w)") auto
    let ?w2 = "w\<lparr> cur_offset_iter := rest, dx := width off + dx w - actual,
                   last_text_pos_with_negative_offset := last_neg,
                   out := out w @ written \<rparr>"
    have e: "offset_boundary r w = Some ?w2"
      using sr stk True ro by (simp add: offset_boundary_def Let_def)
    have nb: "boundaries n (Suc (cur_text_idx w)) (map Offset.start_idx rest)"
      using boundaries_next [OF _ True lt] b sr by simp
    have "balanced_walk ?w2"
      using bal resolve_offset_balance [OF ro]
      by (simp add: balanced_walk_def opened_simps closed_simps)
    then show ?thesis
      using e nb by (intro exI [of _ ?w2]) simp
  next
    case False
    have e: "offset_boundary r w = Some w"
      using sr False by (simp add: offset_boundary_def)
    have nb: "boundaries n (Suc (cur_text_idx w)) (map Offset.start_idx (cur_offset_iter w))"
      using boundaries_skip [OF _ False] b sr by simp
    show ?thesis
      using e nb bal by (intro exI [of _ w]) simp
  qed
qed

lemma text_run_ok:
  assumes bs: "boundaries (length txt) (Suc (cur_text_idx w)) (map State.start_idx (cur_state_iter w))"
    and bo: "boundaries (length txt) (Suc (cur_text_idx w)) (map Offset.start_idx (cur_offset_iter w))"
    and st: "stack w \<noteq> []" and bal: "balanced_walk w"
  shows "\<exists>w'. text_run txt w = Some w' \<and> walk_ok (length txt) w'"
proof -
  from bs obtain s srest where s: "cur_state_iter w = s # srest"
    by (cases "cur_state_iter w") (auto simp: boundaries_def)
  from bo obtain off orest where off: "cur_offset_iter w = off # orest"
    by (cases "cur_offset_iter w") (auto simp: boundaries_def)
  let ?next = "min (State.start_idx s) (Offset.start_idx off)"
  have lo: "cur_text_idx w < ?next"
    using bs bo s off by (simp add: boundaries_def)
  have hi: "?next \<le> length txt"
    using boundaries_hd_le [OF bs] s by simp
  let ?w' = "w\<lparr> cur_text_idx := ?next,
                out := out w @ [Unicodes (take (?next - cur_text_idx w)
                                            (drop (cur_text_idx w) txt))] \<rparr>"
  have e: "text_run txt w = Some ?w'"
    using s off lo hi by (auto simp: text_run_def Let_def)
  have 1: "boundaries (length txt) ?next (map State.start_idx (cur_state_iter w))"
    by (rule boundaries_le [OF bs]) (simp add: s)
  have 2: "boundaries (length txt) ?next (map Offset.start_idx (cur_offset_iter w))"
    by (rule boundaries_le [OF bo]) (simp add: off)
  have "walk_ok (length txt) ?w'"
    using 1 2 st bal
    by (simp add: walk_ok_def balanced_walk_def opened_simps closed_simps opens_def closes_def)
  then show ?thesis using e by blast
qed

lemma walk_round_ok:
  assumes ok: "walk_ok (length txt) w" and lt: "cur_text_idx w < length txt"
  shows "\<exists>w'. walk_round r txt w = Some w' \<and> walk_ok (length txt) w'"
proof -
  from ok have bal: "balanced_walk w"
    by (simp add: walk_ok_def balanced_walk_def)
  from ok state_boundary_ok [OF _ _ bal lt] obtain w1 where
    1: "state_boundary w = Some w1" "cur_text_idx w1 = cur_text_idx w"
      "cur_offset_iter w1 = cur_offset_iter w"
      "boundaries (length txt) (Suc (cur_text_idx w)) (map State.start_idx (cur_state_iter w1))"
      "stack w1 \<noteq> []" "balanced_walk w1"
    unfolding walk_ok_def by blast
  from ok 1 have bo: "boundaries (length txt) (cur_text_idx w1)
      (map Offset.start_idx (cur_offset_iter w1))"
    by (simp add: walk_ok_def)
  from offset_boundary_ok [OF bo 1(5,6), of r] lt 1(2) obtain w2 where
    2: "offset_boundary r w1 = Some w2" "cur_text_idx w2 = cur_text_idx w1"
      "cur_state_iter w2 = cur_state_iter w1" "stack w2 = stack w1"
      "boundaries (length txt) (Suc (cur_text_idx w1)) (map Offset.start_idx (cur_offset_iter w2))"
      "balanced_walk w2"
    by auto
  have "\<exists>w'. text_run txt w2 = Some w' \<and> walk_ok (length txt) w'"
    by (rule text_run_ok) (use 1 2 in simp_all)
  then show ?thesis
    using 1(1) 2(1) by (auto simp: walk_round_def)
qed

lemma walk_ok_result:
  assumes "walk_ok (length tx) w"
  shows "\<exists>w'. walk r tx w = Some w' \<and> balanced_walk w'"
  using assms
proof (induction r tx w rule: walk.induct)
  case (1 r tx w)
  show ?case
  proof (cases "cur_text_idx w < length tx")
    case True
    from walk_round_ok [OF "1.prems" True, of r] obtain w1 where
      w1: "walk_round r tx w = Some w1" "walk_ok (length tx) w1"
      by blast
    from "1.IH" [OF True w1] obtain w' where "walk r tx w1 = Some w'" "balanced_walk w'"
      by blast
    then show ?thesis
      using True w1(1) by (subst walk.simps) simp
  next
    case False
    then show ?thesis
      using "1.prems" by (subst walk.simps) (simp add: walk_ok_def balanced_walk_def)
  qed
qed


lemma states_ok_append_state: "states_ok b \<Longrightarrow> states_ok (append_state r b)"
proof (cases "states b" rule: rev_cases)
  case Nil
  assume "states_ok b"
  then show ?thesis using Nil
    by (simp add: states_ok_def append_state_def set_state_def)
next
  case (snoc ss s)
  assume "states_ok b"
  then show ?thesis using snoc
    by (auto simp: states_ok_def append_state_def set_state_def Let_def sorted_wrt_append
        list_all_iff butlast_append)
qed

lemma states_ok_do_append: "states_ok b \<Longrightarrow> states_ok (do_append b c)"
proof (cases c)
  case (Append_unicodes u)
  assume "states_ok b"
  then show ?thesis using Append_unicodes
    by (auto simp: states_ok_def append_unicodes_def list_all_iff)
next
  case (Append_offset v)
  assume "states_ok b"
  then show ?thesis using Append_offset
    by (auto simp: states_ok_def append_offset_def)
next
  case (Append_state r)
  assume "states_ok b"
  then show ?thesis using Append_state by (simp add: states_ok_append_state)
qed

lemma states_ok_appends: "states_ok b \<Longrightarrow> states_ok (appends cs b)"
  unfolding appends_def
  by (induction cs arbitrary: b) (simp_all add: states_ok_do_append)

lemma states_ok_empty: "states_ok empty_buffer"
  by (simp add: states_ok_def empty_buffer_def)

lemma optimize_loop_ok:
  assumes "sorted_wrt (<) (map State.start_idx sts)"
    and "list_all (\<lambda>p. p \<le> length txt) (map State.start_idx sts)"
  shows "\<exists>sts'. optimize_loop r txt offs sts = Some sts'
     \<and> map State.start_idx sts' = map State.start_idx sts"
  using assms
proof (induction sts arbitrary: offs)
  case Nil
  show ?case by simp
next
  case (Cons s1 rest)
  let ?idx2 = "case rest of [] \<Rightarrow> length txt | s2 # u \<Rightarrow> State.start_idx s2"
  have r: "\<not> (?idx2 < State.start_idx s1 \<or> length txt < ?idx2)"
    using Cons.prems by (cases rest) auto
  have ih: "\<exists>sts'. optimize_loop r txt o' rest = Some sts'
     \<and> map State.start_idx sts' = map State.start_idx rest" for o'
    using Cons.IH [of o'] Cons.prems by simp
  show ?case
  proof (cases "32 \<in> set (take (?idx2 - State.start_idx s1) (drop (State.start_idx s1) txt))")
    case True
    from ih [of offs] obtain sts' where "optimize_loop r txt offs rest = Some sts'"
      "map State.start_idx sts' = map State.start_idx rest" by blast
    then show ?thesis
      using r True by (simp add: Let_def)
  next
    case False
    let ?o2 = "dropWhile (\<lambda>off. Offset.start_idx off < ?idx2)
                 (dropWhile (\<lambda>off. Offset.start_idx off < State.start_idx s1) offs)"
    from ih [of ?o2] obtain sts' where "optimize_loop r txt ?o2 rest = Some sts'"
      "map State.start_idx sts' = map State.start_idx rest" by blast
    then show ?thesis
      using r False by (simp add: Let_def split: prod.splits)
  qed
qed

lemma boundaries_init:
  assumes "sorted_wrt (<) xs" and "list_all (\<lambda>p. p \<le> n) xs"
  shows "boundaries n 0 (xs @ [n])"
proof -
  have "sorted_wrt (\<lambda>a b. a < b \<or> b = n) xs"
    by (rule sorted_wrt_mono_rel [OF _ assms(1)]) simp
  then show ?thesis
    using assms(2) by (simp add: boundaries_def sorted_wrt_append list_all_iff)
qed


lemma first_walk_ok:
  assumes so: "states_ok b" and oo: "offsets_ok b"
    and ne: "states b \<noteq> []" and z: "State.start_idx (states b ! 0) = 0"
    and op: "optimize r b = Some b1"
  shows "walk_ok (length (text' b)) (first_walk r b1) \<and> text' b1 = text' b
    \<and> cur_text_idx (first_walk r b1) = 0 \<and> stack (first_walk r b1) = []
    \<and> cur_state_iter (first_walk r b1) =
        map hash (states b1 @ [zero_State\<lparr> State.start_idx := length (text' b) \<rparr>])
    \<and> out (first_walk r b1) =
        [Line_open (tm_id b) (left_manager_install r (x b))
           (height_manager_install r
              (fold (\<lambda>s m. max m (ascent (font_info s) * draw_font_size s)) (states b1) 0))
           (bottom_manager_install r (y b))]"
proof -
  let ?n = "length (text' b)"
  from op ne obtain sts' where
    ol: "optimize_loop r (text' b) (offsets b) (states b) = Some sts'"
    and b1: "b1 = b\<lparr> states := sts' \<rparr>"
    by (auto simp: optimize_def)
  from so optimize_loop_ok [of "states b" "text' b" r "offsets b"] ol
  have si: "map State.start_idx sts' = map State.start_idx (states b)"
    by (auto simp: states_ok_def)
  let ?sts = "map hash (sts' @ [zero_State\<lparr> State.start_idx := ?n \<rparr>])"
  let ?offs = "offsets b @ [\<lparr> Offset.start_idx = ?n, width = 0 \<rparr>]"
  have hs: "map State.start_idx (map hash xs) = map State.start_idx xs" for xs
    by (simp add: hash_def)
  have ss: "map State.start_idx ?sts = map State.start_idx (states b) @ [?n]"
    unfolding hs by (simp add: si)
  have bs: "boundaries ?n 0 (map State.start_idx ?sts)"
    unfolding ss using so by (intro boundaries_init) (simp_all add: states_ok_def)
  have bo: "boundaries ?n 0 (map Offset.start_idx ?offs)"
    using oo boundaries_init [of "map Offset.start_idx (offsets b)" ?n]
    by (simp add: offsets_ok_def)
  from si ne z obtain s0 r0 where s0: "sts' = s0 # r0" "State.start_idx s0 = 0"
    by (cases sts'; cases "states b") auto
  have h0: "State.start_idx (hd ?sts) = 0"
    by (simp add: s0 hash_def)
  have "walk_ok ?n (first_walk r b1)"
    using bs bo h0 unfolding b1
    by (simp add: first_walk_def walk_ok_def opened_simps closed_simps opens_def closes_def)
  then show ?thesis
    by (simp add: first_walk_def b1)
qed

lemma flush_ok:
  assumes so: "states_ok b" and oo: "offsets_ok b"
  shows "\<exists>f. flush r b = Some f \<and> opened_count (page f) = closed_count (page f)"
proof (cases "text' b = [] \<or> states b = [] \<or> State.start_idx (states b ! 0) \<noteq> 0")
  case True
  then show ?thesis
    by (auto simp: flush_def opened_simps closed_simps)
next
  case False
  then have tx: "text' b \<noteq> []" and ne: "states b \<noteq> []"
    and z: "State.start_idx (states b ! 0) = 0" by simp_all
  from so optimize_loop_ok [of "states b" "text' b" r "offsets b"] ne
  obtain b1 where op: "optimize r b = Some b1"
    by (auto simp: states_ok_def optimize_def)
  from first_walk_ok [OF so oo ne z op]
  have ok: "walk_ok (length (text' b1)) (first_walk r b1)" by simp
  from walk_ok_result [OF ok, of r] obtain w' where
    w: "walk r (text' b1) (first_walk r b1) = Some w'" and bal: "balanced_walk w'"
    by blast
  have "flush r b = Some \<lparr> page = out w' @ concat (map State_end (stack w')) @ [Line_close],
       cerr = [], buffer = b1\<lparr> states := [], offsets := [], text' := [] \<rparr> \<rparr>"
    using tx ne z op w by (simp add: flush_def)
  moreover have "opened_count (out w' @ concat (map State_end (stack w')) @ [Line_close])
      = closed_count (out w' @ concat (map State_end (stack w')) @ [Line_close])"
    using bal
    by (simp add: balanced_walk_def opened_simps closed_simps State_end_balance
        opens_def closes_def)
  ultimately show ?thesis by simp
qed

text \<open>
  Claim C7. For every sequence of append calls on a fresh buffer and every renderer,
  \<^verbatim>\<open>flush\<close> returns (no undefined behaviour is met, the loop ends), and the fragment
  it wrote opens as many elements as it closes.
\<close>

theorem flush_balanced:
  "\<exists>f. flush r (appends cs empty_buffer) = Some f \<and> opened_count (page f) = closed_count (page f)"
  by (rule flush_ok)
     (simp_all add: states_ok_appends states_ok_empty offsets_ok_appends offsets_ok_empty)

lemma sample_line_page:
  "map_option page (flush renderer1 (appends sample_line empty_buffer)) =
     Some [Line_open 0 0 0 0, Span_open, Class_id 0 1, Blank, Class_id 1 2, Blank,
       Class_id 2 3, Blank, Class_id 3 4, Blank, Class_id 4 5, Blank,
       Class_id 5 6, Blank, Class_id 6 7, Tag_end, Unicodes [72, 32, 105],
       Whitespace_span 9 True, Unicodes [121, 111], Span_open, Class_id 1 12,
       Tag_end, Unicodes [33, 32], Span_close, Whitespace_span 9 False,
       Unicodes [32, 34], Span_close, Line_close]"
  by code_simp

theorem flush_balanced_witness:
  "\<exists>f. flush renderer1 (appends sample_line empty_buffer) = Some f
     \<and> page f =
       [Line_open 0 0 0 0, Span_open, Class_id 0 1, Blank, Class_id 1 2, Blank,
        Class_id 2 3, Blank, Class_id 3 4, Blank, Class_id 4 5, Blank,
        Class_id 5 6, Blank, Class_id 6 7, Tag_end, Unicodes [72, 32, 105],
        Whitespace_span 9 True, Unicodes [121, 111], Span_open, Class_id 1 12,
        Tag_end, Unicodes [33, 32], Span_close, Whitespace_span 9 False,
        Unicodes [32, 34], Span_close, Line_close]
     \<and> opened_count (page f) = 5 \<and> closed_count (page f) = 5"
proof -
  from flush_balanced [of renderer1 sample_line] obtain f where
    f: "flush renderer1 (appends sample_line empty_buffer) = Some f"
    and b: "opened_count (page f) = closed_count (page f)"
    by blast
  from f sample_line_page have p: "page f =
       [Line_open 0 0 0 0, Span_open, Class_id 0 1, Blank, Class_id 1 2, Blank,
        Class_id 2 3, Blank, Class_id 3 4, Blank, Class_id 4 5, Blank,
        Class_id 5 6, Blank, Class_id 6 7, Tag_end, Unicodes [72, 32, 105],
        Whitespace_span 9 True, Unicodes [121, 111], Span_open, Class_id 1 12,
        Tag_end, Unicodes [33, 32], Span_close, Whitespace_span 9 False,
        Unicodes [32, 34], Span_close, Line_close]"
    by simp
  have "opened_count (page f) = 5"
    unfolding p by (simp add: opened_count_def opens_def)
  with b f p show ?thesis by simp
qed

section \<open>Word-space inference\<close>
























section \<open>A line of one style\<close>

lemma count_simps:
  "style_elements [] = 0" "style_elements (u @ v) = style_elements u + style_elements v"
  "line_wrappers [] = 0" "line_wrappers (u @ v) = line_wrappers u + line_wrappers v"
  by (simp_all add: style_elements_def line_wrappers_def)

lemma diff_same_key: "hash_value s = hash_value p \<Longrightarrow> diff s p = 0"
  by (simp add: diff_def Let_def)


lemma scan_same_style:
  assumes "same_style a s" and "same_style a p"
  shows "greedy_scan s last_neg [] (p # stk) ID_COUNT = (p # stk, [])"
proof -
  have "diff s p = 0"
    using assms by (intro diff_same_key) (simp add: same_style_def)
  then show ?thesis
    by (simp add: ID_COUNT_def)
qed

lemma style_elements_span_tag:
  "style_elements (span_tag (map (class_token s) xs)) = (if xs = [] then 0 else 1)"
proof -
  have c: "filter (\<lambda>t. t = Span_open) (map (class_token s) ys) = []" for ys
    by (induction ys) (simp_all add: class_token_def)
  have "filter (\<lambda>t. t = Span_open) (concat (map (\<lambda>t. [Blank, t]) (map (class_token s) ys))) = []"
    for ys
    by (induction ys) (simp_all add: class_token_def)
  then have "filter (\<lambda>t. t = Span_open) (spaced (map (class_token s) xs)) = []"
    by (cases xs) (simp_all add: spaced_def class_token_def)
  then show ?thesis
    by (simp add: style_elements_def span_tag_def)
qed

lemma line_wrappers_span_tag:
  "line_wrappers (span_tag (map (class_token s) xs)) = 0"
proof -
  have "filter is_line_open (concat (map (\<lambda>t. [Blank, t]) (map (class_token s) ys))) = []"
    for ys
    by (induction ys) (simp_all add: class_token_def is_line_open_def)
  then have "filter is_line_open (spaced (map (class_token s) xs)) = []"
    by (cases xs) (simp_all add: spaced_def class_token_def is_line_open_def)
  then show ?thesis
    by (simp add: line_wrappers_def span_tag_def is_line_open_def)
qed

lemma begin_same_style:
  assumes len: "length (ids a) = ID_COUNT" and ss: "same_style a s"
    and pp: "case prev of None \<Rightarrow> True | Some p \<Rightarrow> same_style a p"
    and b: "State_begin s prev = (s', written)"
  shows "same_style a s'
    \<and> written = span_tag (map (class_token s)
        (filter (\<lambda>i. prev = None \<and> \<not> channel_free a i) [0..<ID_COUNT]))"
proof -
  from ss len have ls: "length (ids s) = ID_COUNT"
    by (simp add: same_style_def)
  have ni: "\<not> inherits s prev i" if "i < ID_COUNT" for i
    using that ss pp by (auto simp: inherits_def same_style_def split: option.splits)
  have em: "emits s prev i = (prev = None \<and> \<not> channel_free a i)" if "i < ID_COUNT" for i
    using that ss pp by (auto simp: emits_def same_style_def split: option.splits)
  from State_begin_eq [OF ls, of prev] b obtain s0 where
    bg: "begun ID_COUNT s prev s0"
    and s': "s' = s0\<lparr> need_close := (\<exists>j<ID_COUNT. emits s prev j) \<rparr>"
    and w: "written = span_tag (map (class_token s) (filter (emits s prev) [0..<ID_COUNT]))"
    by auto
  from bg ni have l0: "length (ids s0) = length (ids s)"
    and i0: "\<And>i. i < ID_COUNT \<Longrightarrow> ids s0 ! i = ids s ! i"
    and f0: "\<And>i. i < ID_COUNT \<Longrightarrow> channel_free s0 i = channel_free s i"
    and h0: "hash_value s0 = hash_value s"
    unfolding begun_def by auto
  have "ids s0 = ids s"
    by (rule nth_equalityI) (use l0 i0 ls in auto)
  then have 1: "same_style a s'"
    using ss f0 h0 unfolding s' same_style_def
    by (simp add: need_close_update_fields)
  have "filter (emits s prev) [0..<ID_COUNT]
      = filter (\<lambda>i. prev = None \<and> \<not> channel_free a i) [0..<ID_COUNT]"
    by (rule filter_cong [OF refl]) (simp add: em)
  with w 1 show ?thesis by simp
qed


lemma state_boundary_uniform:
  assumes len: "length (ids a) = ID_COUNT" and fb: "\<not> channel_free a FONT_ID"
    and u: "uniform_walk a w" and e: "state_boundary w = Some w1"
    and nl: "State.start_idx (hd (cur_state_iter w)) \<le> cur_text_idx w
              \<Longrightarrow> tl (cur_state_iter w) \<noteq> []"
  shows "uniform_walk a w1"
proof -
  from e obtain s rest where sr: "cur_state_iter w = s # rest"
    by (cases "cur_state_iter w") (simp_all add: state_boundary_def)
  show ?thesis
  proof (cases "State.start_idx s \<le> cur_text_idx w")
    case False
    then have "w1 = w" using e sr by (simp add: state_boundary_def)
    then show ?thesis using u by simp
  next
    case True
    then have rne: "rest \<noteq> []" using nl sr by simp
    with u sr have ss: "same_style a s" and ur: "list_all (same_style a) (butlast rest)"
      by (simp_all add: uniform_walk_def)
    show ?thesis
    proof (cases "stack w")
      case Nil
      obtain s' written where bg: "State_begin s None = (s', written)"
        by (cases "State_begin s None") auto
      from begin_same_style [OF len ss _ bg]
      have s': "same_style a s'"
        and w: "written = span_tag (map (class_token s)
                  (filter (\<lambda>i. \<not> channel_free a i) [0..<ID_COUNT]))"
        by simp_all
      have "FONT_ID \<in> set (filter (\<lambda>i. \<not> channel_free a i) [0..<ID_COUNT])"
        using fb by (simp add: ID_defs)
      then have ne: "filter (\<lambda>i. \<not> channel_free a i) [0..<ID_COUNT] \<noteq> []"
        by (metis empty_iff empty_set)
      have c: "style_elements written = 1" "line_wrappers written = 0"
        unfolding w using ne by (simp_all add: style_elements_span_tag line_wrappers_span_tag)
      have "w1 = w\<lparr> cur_state_iter := rest, stack := [s'], out := out w @ [] @ written \<rparr>"
        using e sr True Nil bg by (simp add: state_boundary_def)
      then show ?thesis
        using u ur s' c Nil by (simp add: uniform_walk_def count_simps)
    next
      case (Cons p stk)
      with u have pp: "same_style a p" by (simp add: uniform_walk_def)
      obtain s' written where bg: "State_begin s (Some p) = (s', written)"
        by (cases "State_begin s (Some p)") auto
      from begin_same_style [OF len ss _ bg] pp
      have s': "same_style a s'" and w: "written = []"
        by (simp_all add: span_tag_def)
      have "w1 = w\<lparr> cur_state_iter := rest, stack := s' # p # stk,
                      out := out w @ [] @ written \<rparr>"
        using e sr True Cons bg scan_same_style [OF ss pp]
        by (simp add: state_boundary_def)
      then show ?thesis
        using u ur s' w Cons by (simp add: uniform_walk_def count_simps)
    qed
  qed
qed

lemma resolve_offset_no_style:
  assumes "resolve_offset r cur_state target idx last_neg = (written, actual, last_neg')"
  shows "style_elements written = 0 \<and> line_wrappers written = 0"
  using assms
  by (auto simp: resolve_offset_def style_elements_def line_wrappers_def is_line_open_def
      split: if_splits prod.splits)

lemma offset_boundary_uniform:
  assumes u: "uniform_walk a w" and e: "offset_boundary r w = Some w2"
  shows "uniform_walk a w2"
proof -
  from e obtain off rest where sr: "cur_offset_iter w = off # rest"
    by (cases "cur_offset_iter w") (simp_all add: offset_boundary_def)
  show ?thesis
  proof (cases "Offset.start_idx off \<le> cur_text_idx w")
    case False
    then have "w2 = w" using e sr by (simp add: offset_boundary_def)
    then show ?thesis using u by simp
  next
    case True
    with e sr obtain cur_state stk where stk: "stack w = cur_state # stk"
      by (cases "stack w") (simp_all add: offset_boundary_def)
    obtain written actual last_neg where
      ro: "resolve_offset r cur_state (width off + dx w) (cur_text_idx w)
             (last_text_pos_with_negative_offset w) = (written, actual, last_neg)"
      by (cases "resolve_offset r cur_state (width off + dx w) (cur_text_idx w)
             (last_text_pos_with_negative_offset w)") auto
    have "w2 = w\<lparr> cur_offset_iter := rest, dx := width off + dx w - actual,
                   last_text_pos_with_negative_offset := last_neg,
                   out := out w @ written \<rparr>"
      using e sr stk True ro by (simp add: offset_boundary_def Let_def)
    then show ?thesis
      using u resolve_offset_no_style [OF ro] by (simp add: uniform_walk_def count_simps)
  qed
qed

lemma text_run_uniform:
  assumes u: "uniform_walk a w" and e: "text_run txt w = Some w'"
  shows "uniform_walk a w' \<and> stack w' = stack w"
  using assms
  by (auto simp: text_run_def Let_def uniform_walk_def count_simps style_elements_def
      line_wrappers_def is_line_open_def split: list.splits if_splits)


lemma walk_round_uniform:
  assumes len: "length (ids a) = ID_COUNT" and fb: "\<not> channel_free a FONT_ID"
    and ok: "walk_ok (length txt) w" and u: "uniform_walk a w"
    and lt: "cur_text_idx w < length txt" and e: "walk_round r txt w = Some w'"
  shows "uniform_walk a w' \<and> stack w' \<noteq> []"
proof -
  from e obtain w1 w2 where
    1: "state_boundary w = Some w1" and 2: "offset_boundary r w1 = Some w2"
    and 3: "text_run txt w2 = Some w'"
    by (auto simp: walk_round_def split: option.splits)
  from ok have bal: "balanced_walk w"
    and bs: "boundaries (length txt) (cur_text_idx w) (map State.start_idx (cur_state_iter w))"
    and st: "stack w \<noteq> [] \<or> State.start_idx (hd (cur_state_iter w)) \<le> cur_text_idx w"
    by (simp_all add: walk_ok_def balanced_walk_def)
  from state_boundary_ok [OF bs st bal lt] 1 have s1: "stack w1 \<noteq> []"
    by auto
  have nl: "tl (cur_state_iter w) \<noteq> []"
    if "State.start_idx (hd (cur_state_iter w)) \<le> cur_text_idx w"
  proof -
    from bs obtain s rest where sr: "cur_state_iter w = s # rest"
      by (cases "cur_state_iter w") (auto simp: boundaries_def)
    from boundaries_next [OF _ _ lt, of "State.start_idx s" "map State.start_idx rest"] bs that sr
    have "boundaries (length txt) (Suc (cur_text_idx w)) (map State.start_idx rest)"
      by simp
    then show ?thesis by (auto simp: sr boundaries_def)
  qed
  have u1: "uniform_walk a w1"
    by (rule state_boundary_uniform [OF len fb u 1 nl])
  have u2: "uniform_walk a w2"
    by (rule offset_boundary_uniform [OF u1 2])
  have s2: "stack w2 = stack w1"
    using 2
    by (auto simp: offset_boundary_def Let_def split: list.splits if_splits prod.splits)
  from text_run_uniform [OF u2 3] s1 s2 show ?thesis by simp
qed

lemma walk_uniform:
  assumes len: "length (ids a) = ID_COUNT" and fb: "\<not> channel_free a FONT_ID"
    and ok: "walk_ok (length tx) w" and u: "uniform_walk a w"
    and st: "cur_text_idx w < length tx \<or> stack w \<noteq> []"
  shows "\<exists>w'. walk r tx w = Some w' \<and> uniform_walk a w' \<and> stack w' \<noteq> []"
  using ok u st
proof (induction r tx w rule: walk.induct)
  case (1 r tx w)
  show ?case
  proof (cases "cur_text_idx w < length tx")
    case True
    from walk_round_ok [OF "1.prems"(1) True, of r] obtain w1 where
      w1: "walk_round r tx w = Some w1" "walk_ok (length tx) w1"
      by blast
    from walk_round_uniform [OF len fb "1.prems"(1,2) True w1(1)]
    have u1: "uniform_walk a w1" "stack w1 \<noteq> []" by simp_all
    from "1.IH" [OF True w1(1) w1(2) u1(1)] u1(2)
    obtain w' where "walk r tx w1 = Some w'" "uniform_walk a w'" "stack w' \<noteq> []"
      by blast
    then show ?thesis
      using True w1(1) by (subst walk.simps) simp
  next
    case False
    then show ?thesis
      using "1.prems" by (subst walk.simps) simp
  qed
qed

lemma fresh_states_do_append:
  assumes "list_all (\<lambda>s. length (ids s) = ID_COUNT \<and> hash_umask s = 0) (states b)"
  shows "list_all (\<lambda>s. length (ids s) = ID_COUNT \<and> hash_umask s = 0) (states (do_append b c))"
proof (cases c)
  case (Append_unicodes u)
  then show ?thesis using assms by (simp add: append_unicodes_def)
next
  case (Append_offset v)
  then show ?thesis using assms by (simp add: append_offset_def)
next
  case (Append_state r)
  have z: "length (ids (set_state r s)) = length (ids s)"
    "hash_umask (set_state r s) = hash_umask s" for s
    by (simp_all add: set_state_def)
  show ?thesis
  proof (cases "states b" rule: rev_cases)
    case Nil
    then show ?thesis
      using Append_state by (simp add: append_state_def z zero_State_def)
  next
    case (snoc ss s)
    then show ?thesis
      using Append_state assms
      by (auto simp: append_state_def Let_def z zero_State_def butlast_append)
  qed
qed

lemma fresh_states_appends:
  "list_all (\<lambda>s. length (ids s) = ID_COUNT \<and> hash_umask s = 0)
     (states (appends cs empty_buffer))"
proof -
  have "list_all (\<lambda>s. length (ids s) = ID_COUNT \<and> hash_umask s = 0) (states (foldl do_append b cs))"
    if "list_all (\<lambda>s. length (ids s) = ID_COUNT \<and> hash_umask s = 0) (states b)" for b
    using that by (induction cs arbitrary: b) (simp_all add: fresh_states_do_append)
  then show ?thesis
    by (simp add: appends_def empty_buffer_def)
qed

lemma font_bound_after_or:
  "channel_free (s\<lparr> hash_umask := hash_umask s OR umask_by_id WORD_SPACE_ID \<rparr>) FONT_ID
     = channel_free s FONT_ID"
proof -
  have "(hash_umask s OR umask_by_id WORD_SPACE_ID) AND umask_by_id FONT_ID
      = hash_umask s AND umask_by_id FONT_ID"
    by (rule bit_eqI) (auto simp: bit_simps bit_umask_by_id ID_defs)
  then show ?thesis by (simp add: channel_free_def)
qed

lemma font_bound_after_and:
  "channel_free (s\<lparr> word_space := v, ids := xs,
        hash_umask := hash_umask s AND NOT (umask_by_id WORD_SPACE_ID) \<rparr>) FONT_ID
     = channel_free s FONT_ID"
  by (simp add: channel_free_def umask_disjoint ID_defs)

lemma optimize_loop_Cons:
  assumes "optimize_loop r txt offs (s1 # rest) = Some sts'"
  shows "\<exists>o' s1' rest'. optimize_loop r txt o' rest = Some rest' \<and> sts' = s1' # rest'
     \<and> (s1' = s1
        \<or> s1' = s1\<lparr> hash_umask := hash_umask s1 OR umask_by_id WORD_SPACE_ID \<rparr>
        \<or> (\<exists>v wid. s1' = s1\<lparr> word_space := v, ids := (ids s1)[WORD_SPACE_ID := wid],
              hash_umask := hash_umask s1 AND NOT (umask_by_id WORD_SPACE_ID) \<rparr>))"
proof -
  let ?idx2 = "case rest of [] \<Rightarrow> length txt | s2 # u \<Rightarrow> State.start_idx s2"
  let ?o1 = "dropWhile (\<lambda>off. Offset.start_idx off < State.start_idx s1) offs"
  let ?o2 = "dropWhile (\<lambda>off. Offset.start_idx off < ?idx2) ?o1"
  let ?wm = "fold (collect_width r (em_size s1 * space_threshold r))
               (takeWhile (\<lambda>off. Offset.start_idx off < ?idx2) ?o1) []"
  from assms have nobad: "\<not> (?idx2 < State.start_idx s1 \<or> length txt < ?idx2)"
    by (auto simp: Let_def split: if_splits)
  show ?thesis
  proof (cases "32 \<in> set (take (?idx2 - State.start_idx s1) (drop (State.start_idx s1) txt))")
    case True
    with assms nobad obtain rest' where
      "optimize_loop r txt offs rest = Some rest'" "sts' = s1 # rest'"
      by (auto simp: Let_def)
    then show ?thesis by blast
  next
    case nospace: False
    show ?thesis
    proof (cases "?wm = []")
      case True
      with assms nobad nospace obtain rest' where
        "optimize_loop r txt ?o2 rest = Some rest'"
        "sts' = s1\<lparr> hash_umask := hash_umask s1 OR umask_by_id WORD_SPACE_ID \<rparr> # rest'"
        by (auto simp: Let_def)
      then show ?thesis by blast
    next
      case False
      obtain wid actual where i: "word_space_manager_install r
          (fst (most_used ?wm) - single_space_offset (s1\<lparr> word_space := 0 \<rparr>)) = (wid, actual)"
        by (cases "word_space_manager_install r
          (fst (most_used ?wm) - single_space_offset (s1\<lparr> word_space := 0 \<rparr>))") auto
      with assms nobad nospace False obtain rest' where
        "optimize_loop r txt ?o2 rest = Some rest'"
        "sts' = s1\<lparr> word_space := actual, ids := (ids s1)[WORD_SPACE_ID := wid],
              hash_umask := hash_umask s1 AND NOT (umask_by_id WORD_SPACE_ID) \<rparr> # rest'"
        by (auto simp: Let_def)
      then show ?thesis by blast
    qed
  qed
qed

lemma optimize_loop_keeps:
  assumes "list_all (\<lambda>s. length (ids s) = ID_COUNT \<and> \<not> channel_free s FONT_ID) sts"
    and "optimize_loop r txt offs sts = Some sts'"
  shows "list_all (\<lambda>s. length (ids s) = ID_COUNT \<and> \<not> channel_free s FONT_ID) sts'"
  using assms
proof (induction sts arbitrary: offs sts')
  case Nil
  then show ?case by simp
next
  case (Cons s1 rest)
  from Cons.prems(1) have p1: "length (ids s1) = ID_COUNT" "\<not> channel_free s1 FONT_ID"
    and pr: "list_all (\<lambda>s. length (ids s) = ID_COUNT \<and> \<not> channel_free s FONT_ID) rest"
    by simp_all
  from optimize_loop_Cons [OF Cons.prems(2)] obtain o' s1' rest' where
    r: "optimize_loop r txt o' rest = Some rest'" and s: "sts' = s1' # rest'"
    and c: "s1' = s1
        \<or> s1' = s1\<lparr> hash_umask := hash_umask s1 OR umask_by_id WORD_SPACE_ID \<rparr>
        \<or> (\<exists>v wid. s1' = s1\<lparr> word_space := v, ids := (ids s1)[WORD_SPACE_ID := wid],
              hash_umask := hash_umask s1 AND NOT (umask_by_id WORD_SPACE_ID) \<rparr>)"
    by blast
  from c p1 have "length (ids s1') = ID_COUNT \<and> \<not> channel_free s1' FONT_ID"
    by (auto simp: font_bound_after_or font_bound_after_and)
  with Cons.IH [OF pr r] s show ?case by simp
qed


lemma hash_fields:
  "ids (hash s) = ids s" "hash_umask (hash s) = hash_umask s"
  "channel_free (hash s) i = channel_free s i"
  by (simp_all add: hash_def channel_free_def)

lemma hash_value_same_ids: "ids s = ids a \<Longrightarrow> hash_value (hash s) = hash_value (hash a)"
  by (simp add: hash_def)

text \<open>
  Claim C8, as the code has it. Take a line built by append calls on a fresh buffer,
  with text and with a first state at index 0. If after the word-space inference every
  segment has the same ids and the same mask of free channels (a single segment always
  does, and so do segments of one style that each hold a literal space), \<^verbatim>\<open>flush\<close>
  writes exactly one line wrapper and exactly one style wrapper: the first segment
  begins under no parent and writes the tokens of its bound channels; every later
  segment finds a parent of cost 0 and writes nothing.
\<close>

theorem uniform_line_one_style_element:
  assumes tx: "text' (appends cs empty_buffer) \<noteq> []"
    and ne: "states (appends cs empty_buffer) \<noteq> []"
    and z: "State.start_idx (states (appends cs empty_buffer) ! 0) = 0"
    and op: "optimize r (appends cs empty_buffer) = Some b1"
    and un: "list_all (\<lambda>s. ids s = ids (hd (states b1))
                          \<and> hash_umask s = hash_umask (hd (states b1))) (states b1)"
  shows "\<exists>f. flush r (appends cs empty_buffer) = Some f
     \<and> line_wrappers (page f) = 1 \<and> style_elements (page f) = 1"
proof -
  let ?b = "appends cs empty_buffer"
  let ?a = "hash (hd (states b1))"
  have so: "states_ok ?b" and oo: "offsets_ok ?b"
    by (simp_all add: states_ok_appends states_ok_empty offsets_ok_appends offsets_ok_empty)
  from op ne obtain sts' where
    ol: "optimize_loop r (text' ?b) (offsets ?b) (states ?b) = Some sts'"
    and b1: "b1 = ?b\<lparr> states := sts' \<rparr>"
    by (auto simp: optimize_def)
  have "list_all (\<lambda>s. length (ids s) = ID_COUNT \<and> \<not> channel_free s FONT_ID) (states ?b)"
    using fresh_states_appends [of cs] by (simp add: list_all_iff channel_free_def)
  from optimize_loop_keeps [OF this ol]
  have keep: "list_all (\<lambda>s. length (ids s) = ID_COUNT \<and> \<not> channel_free s FONT_ID) (states b1)"
    by (simp add: b1)
  from first_walk_ok [OF so oo ne z op]
  have ok: "walk_ok (length (text' b1)) (first_walk r b1)"
    and t1: "text' b1 = text' ?b"
    and c0: "cur_text_idx (first_walk r b1) = 0" and s0: "stack (first_walk r b1) = []"
    and ci: "cur_state_iter (first_walk r b1) =
        map hash (states b1 @ [zero_State\<lparr> State.start_idx := length (text' ?b) \<rparr>])"
    and o0: "out (first_walk r b1) =
        [Line_open (tm_id ?b) (left_manager_install r (x ?b))
           (height_manager_install r
              (fold (\<lambda>s m. max m (ascent (font_info s) * draw_font_size s)) (states b1) 0))
           (bottom_manager_install r (y ?b))]"
    by simp_all
  from ol ne have ne1: "states b1 \<noteq> []"
    using optimize_loop_ok [of "states ?b" "text' ?b" r "offsets ?b"] so
    by (auto simp: b1 states_ok_def)
  then have hdin: "hd (states b1) \<in> set (states b1)" by simp
  with keep have len: "length (ids ?a) = ID_COUNT" and fb: "\<not> channel_free ?a FONT_ID"
    by (simp_all add: list_all_iff hash_fields)
  have "same_style ?a (hash s)" if "s \<in> set (states b1)" for s
    using that un hash_value_same_ids [of s "hd (states b1)"]
    by (simp add: same_style_def list_all_iff hash_fields channel_free_def)
  then have "list_all (same_style ?a) (map hash (states b1))"
    by (simp add: list_all_iff)
  then have u: "uniform_walk ?a (first_walk r b1)"
    by (simp add: uniform_walk_def ci s0 o0 style_elements_def line_wrappers_def
        is_line_open_def butlast_append)
  have st: "cur_text_idx (first_walk r b1) < length (text' b1)
      \<or> stack (first_walk r b1) \<noteq> []"
    using tx by (simp add: c0 t1)
  from walk_uniform [OF len fb ok u st, of r] obtain w' where
    w: "walk r (text' b1) (first_walk r b1) = Some w'"
    and uw: "uniform_walk ?a w'" and sw: "stack w' \<noteq> []"
    by blast
  have e: "flush r ?b = Some \<lparr> page = out w' @ concat (map State_end (stack w')) @ [Line_close],
       cerr = [], buffer = b1\<lparr> states := [], offsets := [], text' := [] \<rparr> \<rparr>"
    using tx ne z op w by (simp add: flush_def)
  have n: "style_elements (concat (map State_end xs)) = 0
      \<and> line_wrappers (concat (map State_end xs)) = 0" for xs
    by (induction xs)
       (simp_all add: State_end_def style_elements_def line_wrappers_def is_line_open_def)
  have "line_wrappers (out w' @ concat (map State_end (stack w')) @ [Line_close]) = 1"
    "style_elements (out w' @ concat (map State_end (stack w')) @ [Line_close]) = 1"
    using uw sw n [of "stack w'"]
    by (simp_all add: count_simps uniform_walk_def)
       (simp_all add: style_elements_def line_wrappers_def is_line_open_def)
  with e show ?thesis by simp
qed

theorem uniform_line_one_style_element_witness:
  "text' (appends uniform_line empty_buffer) \<noteq> []
   \<and> length (states (appends uniform_line empty_buffer)) = 2
   \<and> optimize renderer1 (appends uniform_line empty_buffer)
       = Some (appends uniform_line empty_buffer)
   \<and> (\<exists>f. flush renderer1 (appends uniform_line empty_buffer) = Some f
        \<and> page f =
          [Line_open 0 0 0 0, Span_open, Class_id 0 1, Blank, Class_id 1 2, Blank,
           Class_id 2 3, Blank, Class_id 3 4, Blank, Class_id 4 5, Blank,
           Class_id 5 6, Blank, Class_id 6 7, Tag_end, Unicodes [72, 32, 105],
           Unicodes [121, 32, 111], Span_close, Line_close]
        \<and> line_wrappers (page f) = 1 \<and> style_elements (page f) = 1)"
proof -
  let ?b = "appends uniform_line empty_buffer"
  have tx: "text' ?b \<noteq> []" by code_simp
  have l2: "length (states ?b) = 2" by code_simp
  have ne: "states ?b \<noteq> []" by code_simp
  have z: "State.start_idx (states ?b ! 0) = 0" by code_simp
  have op: "optimize renderer1 ?b = Some ?b" by code_simp
  have un: "list_all (\<lambda>s. ids s = ids (hd (states ?b))
                          \<and> hash_umask s = hash_umask (hd (states ?b))) (states ?b)"
    by code_simp
  have p: "map_option page (flush renderer1 ?b) =
     Some [Line_open 0 0 0 0, Span_open, Class_id 0 1, Blank, Class_id 1 2, Blank,
           Class_id 2 3, Blank, Class_id 3 4, Blank, Class_id 4 5, Blank,
           Class_id 5 6, Blank, Class_id 6 7, Tag_end, Unicodes [72, 32, 105],
           Unicodes [121, 32, 111], Span_close, Line_close]"
    by code_simp
  from uniform_line_one_style_element [OF tx ne z op un] obtain f where
    f: "flush renderer1 ?b = Some f" "line_wrappers (page f) = 1" "style_elements (page f) = 1"
    by blast
  from f(1) p have "page f =
          [Line_open 0 0 0 0, Span_open, Class_id 0 1, Blank, Class_id 1 2, Blank,
           Class_id 2 3, Blank, Class_id 3 4, Blank, Class_id 4 5, Blank,
           Class_id 5 6, Blank, Class_id 6 7, Tag_end, Unicodes [72, 32, 105],
           Unicodes [121, 32, 111], Span_close, Line_close]"
    by simp
  with f tx l2 op show ?thesis by simp
qed

text \<open>
  The claim as stated fails on the simplest line: one state, one run of text. The
  fragment holds the style wrapper of the first segment.
\<close>

theorem single_style_line_has_a_style_element:
  "map_option page
     (flush renderer1
        (appends [Append_state renderer1, Append_unicodes [72, 32, 105]] empty_buffer))
    = Some [Line_open 0 0 0 0, Span_open, Class_id 0 1, Blank, Class_id 1 2, Blank,
            Class_id 2 3, Blank, Class_id 3 4, Blank, Class_id 4 5, Blank,
            Class_id 5 6, Blank, Class_id 6 7, Tag_end, Unicodes [72, 32, 105],
            Span_close, Line_close]
   \<and> style_elements
        [Line_open 0 0 0 0, Span_open, Class_id 0 1, Blank, Class_id 1 2, Blank,
         Class_id 2 3, Blank, Class_id 3 4, Blank, Class_id 4 5, Blank,
         Class_id 5 6, Blank, Class_id 6 7, Tag_end, Unicodes [72, 32, 105],
         Span_close, Line_close] = 1"
  by code_simp

end
